theory Spec2Isabelle
  imports Main "HOL-Library.AList"
begin

section \<open>Batch conversion of Markdown files to notebooks\<close>

text \<open>
  The program under verification is the Python script \<^verbatim>\<open>convert.py\<close>:
  \<^verbatim>\<open>
  def convert_md_to_ipynb(folder_path):
      for root, _, files in os.walk(folder_path):
          for file in files:
              if file.endswith(".md"):
                  md_path = os.path.join(root, file)
                  ipynb_path = os.path.splitext(md_path)[0] + ".ipynb"

                  print(f"Converting: {md_path} -> {ipynb_path}")
                  with open(ipynb_path, "w") as outfile:
                      subprocess.run(["notedown", md_path], stdout=outfile)
  \<close>
  Its own code is the two loops and the loop body. Everything else is the Python
  standard library on a POSIX system: the string methods, \<^verbatim>\<open>posixpath.join\<close>,
  \<^verbatim>\<open>posixpath.splitext\<close>, \<^verbatim>\<open>os.walk\<close>, \<^verbatim>\<open>open\<close> and
  \<^verbatim>\<open>subprocess.run\<close>. The pure library functions are embedded as they are
  written in CPython; the file system and the child process are embedded as an explicit
  world that the script's functions take and return.
\<close>

subsection \<open>Strings\<close>

text \<open>
  Paths are \<^typ>\<open>string\<close>s, that is lists of 8-bit characters. The script only looks
  for the ASCII characters \<^verbatim>\<open>.\<close> and \<^verbatim>\<open>/\<close> and for the ASCII suffix
  \<^verbatim>\<open>.md\<close>, none of which occurs inside a multi-byte UTF-8 sequence, so searching bytes
  and searching code points find the same places.
\<close>

definition startswith :: "string \<Rightarrow> string \<Rightarrow> bool" where
  "startswith s pre = (take (length pre) s = pre)"

definition endswith :: "string \<Rightarrow> string \<Rightarrow> bool" where
  "endswith s suf = (length suf \<le> length s \<and> drop (length s - length suf) s = suf)"

text \<open>
  \<^verbatim>\<open>s.rfind(c)\<close> for a one-character \<^verbatim>\<open>c\<close>: the highest index at which
  \<^verbatim>\<open>c\<close> occurs, and \<open>-1\<close> when it does not occur.
\<close>

fun rfind_from :: "int \<Rightarrow> string \<Rightarrow> char \<Rightarrow> int \<Rightarrow> int" where
  "rfind_from i [] c found = found"
| "rfind_from i (x # xs) c found = rfind_from (i + 1) xs c (if x = c then i else found)"

definition rfind :: "string \<Rightarrow> char \<Rightarrow> int" where
  "rfind s c = rfind_from 0 s c (- 1)"

text \<open>The slice \<^verbatim>\<open>p[i:j]\<close> for indices that are not negative.\<close>

definition slice :: "string \<Rightarrow> int \<Rightarrow> int \<Rightarrow> string" where
  "slice p i j = take (nat j - nat i) (drop (nat i) p)"

subsection \<open>posixpath.join and posixpath.splitext\<close>

text \<open>
  \<^verbatim>\<open>
  def join(a, *p):
      sep = '/'
      path = a
      for b in p:
          if b.startswith(sep):
              path = b
          elif not path or path.endswith(sep):
              path += b
          else:
              path += sep + b
      return path
  \<close>
  The script and \<^verbatim>\<open>os.walk\<close> call it with two arguments.
\<close>

definition join :: "string \<Rightarrow> string \<Rightarrow> string" where
  "join a b =
     (if startswith b ''/'' then b
      else if a = [] \<or> endswith a ''/'' then a @ b
      else a @ ''/'' @ b)"

text \<open>
  \<^verbatim>\<open>
  def _splitext(p, sep, altsep, extsep):
      sepIndex = p.rfind(sep)
      dotIndex = p.rfind(extsep)
      if dotIndex > sepIndex:
          # skip all leading dots
          filenameIndex = sepIndex + 1
          while filenameIndex < dotIndex:
              if p[filenameIndex:filenameIndex+1] != extsep:
                  return p[:dotIndex], p[dotIndex:]
              filenameIndex += 1
      return p, p[:0]
  \<close>
  with \<^verbatim>\<open>sep = '/'\<close>, \<^verbatim>\<open>altsep = None\<close> and \<^verbatim>\<open>extsep = '.'\<close> on POSIX.
  The \<^verbatim>\<open>while\<close> loop is the function \<open>skip_leading_dots\<close>.
\<close>

function skip_leading_dots :: "string \<Rightarrow> int \<Rightarrow> int \<Rightarrow> string \<times> string" where
  "skip_leading_dots p dotIndex filenameIndex =
     (if filenameIndex < dotIndex then
        if slice p filenameIndex (filenameIndex + 1) \<noteq> ''.''
        then (take (nat dotIndex) p, drop (nat dotIndex) p)
        else skip_leading_dots p dotIndex (filenameIndex + 1)
      else (p, []))"
  by pat_completeness auto
termination
  by (relation "measure (\<lambda>(p, dotIndex, filenameIndex). nat (dotIndex - filenameIndex))") auto

declare skip_leading_dots.simps [simp del]

definition splitext :: "string \<Rightarrow> string \<times> string" where
  "splitext p =
     (let sepIndex = rfind p CHR ''/'';
          dotIndex = rfind p CHR ''.''
      in if dotIndex > sepIndex then skip_leading_dots p dotIndex (sepIndex + 1)
         else (p, []))"

subsection \<open>The file system\<close>

text \<open>
  A file system is a tree of directories and regular files. A regular file has a content
  and a directory has a listing, an association list from names to nodes in the order in
  which \<^verbatim>\<open>scandir\<close> reports them. Both carry a flag that says whether the process may
  write to them: a file that is not writable cannot be opened for writing, no new entry
  can be made in a directory that is not writable. Every directory can be listed and
  searched; there are no symbolic links and no special files.
\<close>

type_synonym name = string
type_synonym bytes = string

datatype node = File bool bytes | Dir bool "(name \<times> node) list"

text \<open>A location is the list of names that leads from the root directory to a node.\<close>

type_synonym loc = "name list"

fun lookup :: "node \<Rightarrow> loc \<Rightarrow> node option" where
  "lookup t [] = Some t"
| "lookup (File w c) (n # ns) = None"
| "lookup (Dir w es) (n # ns) =
     (case map_of es n of None \<Rightarrow> None | Some t \<Rightarrow> lookup t ns)"

text \<open>
  \<open>put l v t\<close> stores the node \<open>v\<close> at the location \<open>l\<close> of \<open>t\<close>: in the place of the
  node that is there, or as a new last entry of the directory that \<open>butlast l\<close> leads to.
\<close>

fun put :: "loc \<Rightarrow> node \<Rightarrow> node \<Rightarrow> node" where
  "put [] v t = v"
| "put (n # ns) v (File w c) = File w c"
| "put (n # ns) v (Dir w es) =
     (case map_of es n of
        None \<Rightarrow> if ns = [] then Dir w (AList.update n v es) else Dir w es
      | Some t \<Rightarrow> Dir w (AList.update n (put ns v t) es))"

text \<open>
  The names of a listing are not empty, have no \<^verbatim>\<open>/\<close>, are neither \<^verbatim>\<open>.\<close> nor
  \<^verbatim>\<open>..\<close>, and no name occurs twice in one directory.
\<close>

definition proper_name :: "string \<Rightarrow> bool" where
  "proper_name n = (n \<noteq> [] \<and> CHR ''/'' \<notin> set n \<and> n \<noteq> ''.'' \<and> n \<noteq> ''..'')"

fun wf_node :: "node \<Rightarrow> bool" where
  "wf_node (File w c) = True"
| "wf_node (Dir w es) =
     (distinct (map fst es) \<and> (\<forall>e \<in> set es. proper_name (fst e) \<and> wf_node (snd e)))"

subsection \<open>Path resolution\<close>

text \<open>
  \<^verbatim>\<open>p.split('/')\<close>: the pieces of \<open>p\<close> between the separators.
\<close>

fun split_sep :: "string \<Rightarrow> string list" where
  "split_sep [] = [[]]"
| "split_sep (x # xs) =
     (if x = CHR ''/'' then [] # split_sep xs
      else (case split_sep xs of [] \<Rightarrow> [[x]] | y # ys \<Rightarrow> (x # y) # ys))"

text \<open>
  The kernel resolves a path component by component, from the root directory for an
  absolute path and from the working directory otherwise. Each component is looked up in
  a directory that has to exist; an empty component and \<^verbatim>\<open>.\<close> stay there,
  \<^verbatim>\<open>..\<close> goes to the parent (the root directory is its own parent). The last
  component may name a node that does not exist yet.
\<close>

fun namei_step :: "node \<Rightarrow> loc option \<Rightarrow> string \<Rightarrow> loc option" where
  "namei_step t None c = None"
| "namei_step t (Some cur) c =
     (case lookup t cur of
        Some (Dir w es) \<Rightarrow>
          Some (if c = [] \<or> c = ''.'' then cur
                else if c = ''..'' then butlast cur
                else cur @ [c])
      | _ \<Rightarrow> None)"

definition resolve :: "node \<Rightarrow> loc \<Rightarrow> string \<Rightarrow> loc option" where
  "resolve t cwd p =
     (if p = [] then None
      else foldl (namei_step t) (Some (if startswith p ''/'' then [] else cwd)) (split_sep p))"

subsection \<open>Errors, events and the world\<close>

datatype py_error =
    FileNotFoundError string
  | NotADirectoryError string
  | IsADirectoryError string
  | PermissionError string
  | IndexError

text \<open>
  What the process does to the outside is recorded, in order: the lines it prints, the
  files it opens and closes, and the child processes it runs to their end.
\<close>

datatype event = Print string | Open string | Run "string list" | Close string

record world =
  filesystem :: node
  workdir :: loc
  trace :: "event list"

text \<open>
  A child process is given its argument vector and sees the file system and the working
  directory; it ends with a return code, having written to its standard output and its
  standard error. Looking a command up gives the program, or nothing when there is no
  such executable.
\<close>

record proc =
  returncode :: int
  out :: bytes
  err :: bytes

type_synonym program = "string list \<Rightarrow> loc \<Rightarrow> node \<Rightarrow> proc"
type_synonym env = "string \<Rightarrow> program option"

subsection \<open>os.walk\<close>

text \<open>
  \<^verbatim>\<open>
  def walk(top):                       # topdown=True, onerror=None, followlinks=False
      try:
          scandir_it = scandir(top)
      except OSError:
          return
      dirs, nondirs = [], []
      for entry in scandir_it:
          if entry.is_dir(): dirs.append(entry.name)
          else: nondirs.append(entry.name)
      yield top, dirs, nondirs
      for dirname in dirs:
          new_path = join(top, dirname)
          if not islink(new_path):
              yield from walk(new_path)
  \<close>
  Listing a path that does not resolve to a directory raises an \<^verbatim>\<open>OSError\<close>, which
  \<^verbatim>\<open>walk\<close> swallows.
\<close>

definition scandir :: "node \<Rightarrow> loc \<Rightarrow> string \<Rightarrow> py_error + (name \<times> node) list" where
  "scandir t cwd p =
     (case resolve t cwd p of
        None \<Rightarrow> Inl (FileNotFoundError p)
      | Some l \<Rightarrow>
          (case lookup t l of
             None \<Rightarrow> Inl (FileNotFoundError p)
           | Some (File w c) \<Rightarrow> Inl (NotADirectoryError p)
           | Some (Dir w es) \<Rightarrow> Inr es))"

fun is_dir :: "node \<Rightarrow> bool" where
  "is_dir (Dir w es) = True"
| "is_dir (File w c) = False"

definition dirs_of :: "(name \<times> node) list \<Rightarrow> name list" where
  "dirs_of es = map fst (filter (\<lambda>e. is_dir (snd e)) es)"

definition nondirs_of :: "(name \<times> node) list \<Rightarrow> name list" where
  "nondirs_of es = map fst (filter (\<lambda>e. \<not> is_dir (snd e)) es)"

text \<open>
  The walk of the directory with the listing \<open>es\<close> that the path \<open>topdir\<close> names
  (\<^verbatim>\<open>top\<close> in the source). The listing of a subdirectory is the one its entry holds,
  which is what listing the path \<open>join topdir dirname\<close> gives (lemma \<open>scandir_join\<close>
  below).
\<close>

fun walk_dir :: "string \<Rightarrow> (name \<times> node) list \<Rightarrow> (string \<times> name list \<times> name list) list"
  and walk_subdirs :: "string \<Rightarrow> (name \<times> node) list \<Rightarrow> (string \<times> name list \<times> name list) list"
where
  "walk_dir topdir es = (topdir, dirs_of es, nondirs_of es) # walk_subdirs topdir es"
| "walk_subdirs topdir [] = []"
| "walk_subdirs topdir ((dirname, File w c) # es) = walk_subdirs topdir es"
| "walk_subdirs topdir ((dirname, Dir w sub) # es) =
     walk_dir (join topdir dirname) sub @ walk_subdirs topdir es"

definition os_walk :: "node \<Rightarrow> loc \<Rightarrow> string \<Rightarrow> (string \<times> name list \<times> name list) list" where
  "os_walk t cwd topdir =
     (case scandir t cwd topdir of Inl e \<Rightarrow> [] | Inr es \<Rightarrow> walk_dir topdir es)"

subsection \<open>print, open and subprocess.run\<close>

text \<open>
  A function of the script or of the library that acts on the world takes the world and
  returns its result with the new world. The result is \<open>Inl\<close> of the exception when
  it raises; what it did before it raised stays done.
\<close>

definition print :: "string \<Rightarrow> world \<Rightarrow> world" where
  "print line w = w\<lparr>trace := trace w @ [Print line]\<rparr>"

text \<open>
  \<^verbatim>\<open>open(p, "w")\<close> creates the file or truncates the one that is there. It raises
  when the path does not resolve, names a directory, names a file that is not writable,
  or names no node in a directory that is not writable. The file object it returns is
  modelled by the path it was opened with and the location of the file.
\<close>

type_synonym file_object = "string \<times> loc"

definition py_open :: "string \<Rightarrow> world \<Rightarrow> (py_error + file_object) \<times> world" where
  "py_open p w =
     (case resolve (filesystem w) (workdir w) p of
        None \<Rightarrow> (Inl (FileNotFoundError p), w)
      | Some l \<Rightarrow>
          (case lookup (filesystem w) l of
             Some (Dir dw es) \<Rightarrow> (Inl (IsADirectoryError p), w)
           | Some (File fw c) \<Rightarrow>
               if fw
               then (Inr (p, l),
                     w\<lparr>filesystem := put l (File fw []) (filesystem w),
                       trace := trace w @ [Open p]\<rparr>)
               else (Inl (PermissionError p), w)
           | None \<Rightarrow>
               (case lookup (filesystem w) (butlast l) of
                  Some (Dir dw es) \<Rightarrow>
                    if dw
                    then (Inr (p, l),
                          w\<lparr>filesystem := put l (File True []) (filesystem w),
                            trace := trace w @ [Open p]\<rparr>)
                    else (Inl (PermissionError p), w)
                | _ \<Rightarrow> (Inl (FileNotFoundError p), w))))"

definition py_close :: "file_object \<Rightarrow> world \<Rightarrow> world" where
  "py_close f w = w\<lparr>trace := trace w @ [Close (fst f)]\<rparr>"

text \<open>What is written to a file descriptor goes to the end of what the file holds.\<close>

definition write_fd :: "loc \<Rightarrow> bytes \<Rightarrow> node \<Rightarrow> node" where
  "write_fd l bs t =
     (case lookup t l of Some (File fw c) \<Rightarrow> put l (File fw (c @ bs)) t | _ \<Rightarrow> t)"

text \<open>
  \<^verbatim>\<open>subprocess.run(args, stdout=outfile)\<close> raises when the command cannot be
  executed. Otherwise the child inherits the descriptor of \<^verbatim>\<open>outfile\<close> as its standard
  output and writes there itself; \<^verbatim>\<open>run\<close> waits until it has ended and returns the
  completed process with its return code, whatever that is (\<^verbatim>\<open>check=False\<close>). The
  child's standard error is not redirected and does not come back to the caller.
\<close>

definition subprocess_run ::
  "env \<Rightarrow> string list \<Rightarrow> file_object \<Rightarrow> world \<Rightarrow> (py_error + int) \<times> world" where
  "subprocess_run exec args outfile w =
     (case args of
        [] \<Rightarrow> (Inl IndexError, w)
      | cmd # _ \<Rightarrow>
          (case exec cmd of
             None \<Rightarrow> (Inl (FileNotFoundError cmd), w)
           | Some prog \<Rightarrow>
               let child = prog args (workdir w) (filesystem w)
               in (Inr (returncode child),
                   w\<lparr>filesystem := write_fd (snd outfile) (out child) (filesystem w),
                     trace := trace w @ [Run args]\<rparr>)))"

subsection \<open>The script\<close>

text \<open>
  The body of the inner loop, for one \<^verbatim>\<open>file\<close> of the directory \<^verbatim>\<open>root\<close>. The
  \<^verbatim>\<open>with\<close> statement closes the file when its block ends, also when the block
  raises. The value \<^verbatim>\<open>subprocess.run\<close> returns is dropped.
\<close>

definition convert_file :: "env \<Rightarrow> string \<Rightarrow> string \<Rightarrow> world \<Rightarrow> (py_error + unit) \<times> world" where
  "convert_file exec root file w =
     (if endswith file ''.md'' then
        let md_path = join root file;
            ipynb_path = fst (splitext md_path) @ ''.ipynb'';
            w1 = print (''Converting: '' @ md_path @ '' -> '' @ ipynb_path) w
        in case py_open ipynb_path w1 of
             (Inl e, w2) \<Rightarrow> (Inl e, w2)
           | (Inr outfile, w2) \<Rightarrow>
               (case subprocess_run exec [''notedown'', md_path] outfile w2 of
                  (Inl e, w3) \<Rightarrow> (Inl e, py_close outfile w3)
                | (Inr completed, w3) \<Rightarrow> (Inr (), py_close outfile w3))
      else (Inr (), w))"

text \<open>\<^verbatim>\<open>for file in files: ...\<close>; an exception ends the loop.\<close>

fun for_files :: "env \<Rightarrow> string \<Rightarrow> string list \<Rightarrow> world \<Rightarrow> (py_error + unit) \<times> world" where
  "for_files exec root [] w = (Inr (), w)"
| "for_files exec root (file # files) w =
     (case convert_file exec root file w of
        (Inl e, w') \<Rightarrow> (Inl e, w')
      | (Inr u, w') \<Rightarrow> for_files exec root files w')"

text \<open>\<^verbatim>\<open>for root, _, files in os.walk(folder_path): ...\<close>\<close>

fun for_walk ::
  "env \<Rightarrow> (string \<times> name list \<times> name list) list \<Rightarrow> world \<Rightarrow> (py_error + unit) \<times> world" where
  "for_walk exec [] w = (Inr (), w)"
| "for_walk exec ((root, dirs, files) # rest) w =
     (case for_files exec root files w of
        (Inl e, w') \<Rightarrow> (Inl e, w')
      | (Inr u, w') \<Rightarrow> for_walk exec rest w')"

text \<open>
  \<^verbatim>\<open>os.walk\<close> is a generator: it lists a directory when the loop asks for the next
  triple, so it lists a subdirectory after the body has run for the files of the
  directories before it. The model lists the whole tree when the loop starts. That makes
  no difference to the run: the body only makes or truncates regular files whose names end
  in \<^verbatim>\<open>.ipynb\<close>, in a directory that has been listed already.
\<close>

definition convert_md_to_ipynb :: "env \<Rightarrow> string \<Rightarrow> world \<Rightarrow> (py_error + unit) \<times> world" where
  "convert_md_to_ipynb exec folder_path w =
     for_walk exec (os_walk (filesystem w) (workdir w) folder_path) w"

text \<open>
  The run from each subdirectory of \<open>topdir\<close> in turn, each in the world the one before has
  left. Lemma \<open>convert_md_to_ipynb_unfold\<close> below shows that the run is what the
  generator gives: list the top directory, run the body for its files, then run from each
  subdirectory, which is listed only then.
\<close>

fun for_subdirs :: "env \<Rightarrow> string \<Rightarrow> name list \<Rightarrow> world \<Rightarrow> (py_error + unit) \<times> world" where
  "for_subdirs exec topdir [] w = (Inr (), w)"
| "for_subdirs exec topdir (dirname # dirs) w =
     (case convert_md_to_ipynb exec (join topdir dirname) w of
        (Inl e, w') \<Rightarrow> (Inl e, w')
      | (Inr u, w') \<Rightarrow> for_subdirs exec topdir dirs w')"

subsection \<open>The paths and the events of a run\<close>

text \<open>
  The output path the body derives from \<^verbatim>\<open>root\<close> and \<^verbatim>\<open>file\<close>, that is the value of
  \<^verbatim>\<open>os.path.splitext(os.path.join(root, file))[0] + ".ipynb"\<close>.
\<close>

definition ipynb_path_of :: "string \<Rightarrow> string \<Rightarrow> string" where
  "ipynb_path_of root file = fst (splitext (join root file)) @ ''.ipynb''"

text \<open>
  The output path as the specification words it: the path with the substring from its
  last \<^verbatim>\<open>.\<close> to its end stripped, and \<^verbatim>\<open>.ipynb\<close> appended. (The name of a candidate
  ends in \<^verbatim>\<open>.md\<close>, so the last \<^verbatim>\<open>.\<close> of its path is the last one of its name.)
\<close>

definition spec_output_path :: "string \<Rightarrow> string" where
  "spec_output_path p = take (nat (rfind p CHR ''.'')) p @ ''.ipynb''"

text \<open>What is left of a name that ends in \<^verbatim>\<open>.md\<close> when these three characters are cut off.\<close>

definition md_stem :: "string \<Rightarrow> string" where
  "md_stem file = take (length file - length ''.md'') file"

text \<open>
  The name of the output file of a candidate: by lemma \<open>ipynb_path_of_entry\<close> below, the
  output path is this name in the directory of the candidate.
\<close>

definition dest_name :: "string \<Rightarrow> string" where
  "dest_name file =
     (if set (md_stem file) \<subseteq> {CHR ''.''} then file else md_stem file) @ ''.ipynb''"

text \<open>The prefix that \<open>join\<close> puts before a name that does not start with \<^verbatim>\<open>/\<close>.\<close>

definition dir_prefix :: "string \<Rightarrow> string" where
  "dir_prefix a = (if a = [] \<or> endswith a ''/'' then a else a @ ''/'')"

text \<open>
  The line the body prints for a candidate, as an event, and what the body records for a
  candidate when nothing raises.
\<close>

definition announce :: "string \<Rightarrow> string \<Rightarrow> event" where
  "announce root file =
     Print (''Converting: '' @ join root file @ '' -> '' @ ipynb_path_of root file)"

definition block :: "string \<times> name \<Rightarrow> event list" where
  "block rf =
     [announce (fst rf) (snd rf),
      Open (ipynb_path_of (fst rf) (snd rf)),
      Run [''notedown'', join (fst rf) (snd rf)],
      Close (ipynb_path_of (fst rf) (snd rf))]"

text \<open>The argument vectors of the child processes that a sequence of events records.\<close>

fun runs :: "event list \<Rightarrow> string list list" where
  "runs [] = []"
| "runs (Run args # es) = args # runs es"
| "runs (Print line # es) = runs es"
| "runs (Open p # es) = runs es"
| "runs (Close p # es) = runs es"

text \<open>
  The pairs of \<^verbatim>\<open>root\<close> and \<^verbatim>\<open>file\<close> for which the two loops run the body, in order;
  the loops as one loop over such a list (lemma \<open>for_walk_pairs\<close> below); and the pairs
  that pass the test of the body, the candidates.
\<close>

definition loop_files :: "(string \<times> name list \<times> name list) list \<Rightarrow> (string \<times> name) list" where
  "loop_files triples = concat (map (\<lambda>(root, dirs, files). map (Pair root) files) triples)"

fun for_pairs :: "env \<Rightarrow> (string \<times> name) list \<Rightarrow> world \<Rightarrow> (py_error + unit) \<times> world" where
  "for_pairs exec [] w = (Inr (), w)"
| "for_pairs exec ((root, file) # rest) w =
     (case convert_file exec root file w of
        (Inl e, w') \<Rightarrow> (Inl e, w')
      | (Inr u, w') \<Rightarrow> for_pairs exec rest w')"

definition is_candidate :: "string \<times> name \<Rightarrow> bool" where
  "is_candidate rf = endswith (snd rf) ''.md''"

definition cands :: "(string \<times> name list \<times> name list) list \<Rightarrow> (string \<times> name) list" where
  "cands triples = filter is_candidate (loop_files triples)"

subsection \<open>The file system by locations\<close>

text \<open>
  What \<^verbatim>\<open>stat\<close> tells about a location: a regular file with its content, or a
  directory, without its listing.
\<close>

datatype inode = Reg bool bytes | Directory bool

fun shallow :: "node \<Rightarrow> inode" where
  "shallow (File fw c) = Reg fw c"
| "shallow (Dir dw es) = Directory dw"

definition stat :: "node \<Rightarrow> loc \<Rightarrow> inode option" where
  "stat t l = map_option shallow (lookup t l)"

definition file_at :: "node \<Rightarrow> loc \<Rightarrow> bool" where
  "file_at t l = (case lookup t l of Some (File fw c) \<Rightarrow> True | _ \<Rightarrow> False)"

definition dir_at :: "node \<Rightarrow> loc \<Rightarrow> bool" where
  "dir_at t l = (case lookup t l of Some (Dir dw es) \<Rightarrow> True | _ \<Rightarrow> False)"

text \<open>
  A location where a regular file can be stored: there is one already, or there is
  nothing in a directory that exists.
\<close>

definition file_slot :: "node \<Rightarrow> loc \<Rightarrow> bool" where
  "file_slot t l = (file_at t l \<or> (lookup t l = None \<and> l \<noteq> [] \<and> dir_at t (butlast l)))"

text \<open>
  Whether \<^verbatim>\<open>open(p, "w")\<close> succeeds for a path that resolves to the location \<open>l\<close>, and
  the exception it raises when it does not: \<open>py_open\<close> read by cases (lemma
  \<open>py_open_resolved\<close> below).
\<close>

definition writable_slot :: "node \<Rightarrow> loc \<Rightarrow> bool" where
  "writable_slot t l =
     (case lookup t l of
        Some (Dir dw es) \<Rightarrow> False
      | Some (File fw c) \<Rightarrow> fw
      | None \<Rightarrow> (case lookup t (butlast l) of Some (Dir dw es) \<Rightarrow> dw | _ \<Rightarrow> False))"

definition open_error :: "node \<Rightarrow> loc \<Rightarrow> string \<Rightarrow> py_error" where
  "open_error t l p =
     (case lookup t l of
        Some (Dir dw es) \<Rightarrow> IsADirectoryError p
      | Some (File fw c) \<Rightarrow> PermissionError p
      | None \<Rightarrow>
          (case lookup t (butlast l) of
             Some (Dir dw es) \<Rightarrow> PermissionError p
           | _ \<Rightarrow> FileNotFoundError p))"

text \<open>
  An entry of the walk that the body can work on: its name has no \<^verbatim>\<open>/\<close> and its
  \<^verbatim>\<open>root\<close> resolves to a directory.
\<close>

definition entry_ok :: "node \<Rightarrow> loc \<Rightarrow> string \<times> name \<Rightarrow> bool" where
  "entry_ok t cwd rf =
     (CHR ''/'' \<notin> set (snd rf) \<and>
      (case resolve t cwd (fst rf) of None \<Rightarrow> False | Some d \<Rightarrow> dir_at t d))"

text \<open>
  The walk with locations in the place of paths: the location of each directory, with the
  names of its subdirectories and of its other entries; and the locations of the entries
  that such a walk lists as files.
\<close>

fun walk_locs :: "loc \<Rightarrow> (name \<times> node) list \<Rightarrow> (loc \<times> name list \<times> name list) list"
  and walk_sublocs :: "loc \<Rightarrow> (name \<times> node) list \<Rightarrow> (loc \<times> name list \<times> name list) list"
where
  "walk_locs l es = (l, dirs_of es, nondirs_of es) # walk_sublocs l es"
| "walk_sublocs l [] = []"
| "walk_sublocs l ((dirname, File w c) # es) = walk_sublocs l es"
| "walk_sublocs l ((dirname, Dir w sub) # es) = walk_locs (l @ [dirname]) sub @ walk_sublocs l es"


text \<open>
  The walk of a node: nothing for a regular file, the walk of its listing for a directory.
\<close>

fun walk_node :: "string \<Rightarrow> node \<Rightarrow> (string \<times> name list \<times> name list) list" where
  "walk_node topdir (File fw c) = []"
| "walk_node topdir (Dir dw es) = walk_dir topdir es"

text \<open>
  The file systems that come from a file system by storing writable regular files, each
  under a proper name that does not end in \<^verbatim>\<open>.md\<close>, where a file can be stored. These are
  the file systems a run goes through (lemma \<open>for_pairs_stores\<close> below).
\<close>

inductive stores :: "node \<Rightarrow> node \<Rightarrow> bool" where
  stores_refl: "stores t t"
| stores_put: "stores t u \<Longrightarrow> file_slot u l \<Longrightarrow> l \<noteq> [] \<Longrightarrow> proper_name (last l) \<Longrightarrow>
     \<not> endswith (last l) ''.md'' \<Longrightarrow> stores t (put l (File True c) u)"

text \<open>
  The file system without the contents of its files, and two worlds that differ at most
  in the contents of their files.
\<close>

fun erase :: "node \<Rightarrow> node" where
  "erase (File fw c) = File fw []"
| "erase (Dir dw es) = Dir dw (map (\<lambda>e. (fst e, erase (snd e))) es)"

definition same_shape :: "world \<Rightarrow> world \<Rightarrow> bool" where
  "same_shape w w' =
     (erase (filesystem w) = erase (filesystem w') \<and> workdir w = workdir w' \<and> trace w = trace w')"

subsection \<open>Concrete worlds\<close>

text \<open>
  A converter that writes a line to each of its output streams and exits with status 1,
  and one that writes the same to its standard output, nothing to its standard error, and
  exits with status 0. An environment in which \<^verbatim>\<open>notedown\<close> is the first, one in
  which it is the second, and one without any converter.
\<close>

definition failing_converter :: program where
  "failing_converter args cwd t = \<lparr>returncode = 1, out = ''nb:'' @ last args, err = ''warning''\<rparr>"

definition quiet_converter :: program where
  "quiet_converter args cwd t = \<lparr>returncode = 0, out = ''nb:'' @ last args, err = []\<rparr>"

definition demo_tool :: env where
  "demo_tool = (\<lambda>cmd. if cmd = ''notedown'' then Some failing_converter else None)"

definition quiet_tool :: env where
  "quiet_tool = (\<lambda>cmd. if cmd = ''notedown'' then Some quiet_converter else None)"



text \<open>
  A tree with a Markdown file at the top, one two directories down, and files that are
  no candidates.
\<close>

definition nested_world :: world where
  "nested_world =
     \<lparr>filesystem =
        Dir True
          [(''notes.md'', File True ''# n''),
           (''image.png'', File True []),
           (''README.MD'', File True ''# R''),
           (''sub'', Dir True [(''dir'', Dir True [(''readme.md'', File False ''# r'')])])],
      workdir = [], trace = []\<rparr>"

text \<open>
  A tree in which the output path of the second candidate is taken by a directory, and one
  in which the directory of the candidate is not writable.
\<close>

definition blocked_world :: world where
  "blocked_world =
     \<lparr>filesystem =
        Dir True
          [(''a.md'', File True ''# a''),
           (''b.md'', File True ''# b''),
           (''b.ipynb'', Dir True []),
           (''c.md'', File True ''# c'')],
      workdir = [], trace = []\<rparr>"

definition readonly_world :: world where
  "readonly_world =
     \<lparr>filesystem = Dir False [(''a.md'', File True ''# a''), (''b.md'', File True ''# b'')],
      workdir = [], trace = []\<rparr>"

section \<open>Properties of the string functions\<close>

subsection \<open>rfind and the loop of splitext\<close>

lemma rfind_from_shift:
  "rfind_from i s c f = (if c \<in> set s then i + rfind s c else f)"
proof (induction s arbitrary: i f)
  case Nil
  show ?case by simp
next
  case (Cons x xs)
  have a: "rfind_from (i + 1) xs c (if x = c then i else f) =
     (if c \<in> set xs then (i + 1) + rfind xs c else (if x = c then i else f))"
    by (rule Cons.IH)
  have b: "rfind_from 1 xs c (if x = c then 0 else - 1) =
     (if c \<in> set xs then 1 + rfind xs c else (if x = c then 0 else - 1))"
    using Cons.IH [of 1 "if x = c then 0 else - 1"] by simp
  have c: "rfind (x # xs) c = rfind_from 1 xs c (if x = c then 0 else - 1)"
    by (simp add: rfind_def)
  show ?case
    unfolding rfind_from.simps a c b by simp
qed

lemma rfind_notin: "c \<notin> set s \<Longrightarrow> rfind s c = - 1"
  using rfind_from_shift [of 0 s c "- 1"] by (simp add: rfind_def)

lemma rfind_from_append:
  "rfind_from i (xs @ ys) c f = rfind_from (i + int (length xs)) ys c (rfind_from i xs c f)"
  by (induction xs arbitrary: i f) (simp_all add: add.assoc)

lemma rfind_append:
  "rfind (xs @ ys) c = (if c \<in> set ys then int (length xs) + rfind ys c else rfind xs c)"
proof -
  have "rfind (xs @ ys) c = rfind_from (int (length xs)) ys c (rfind xs c)"
    by (simp add: rfind_def rfind_from_append)
  then show ?thesis by (simp only: rfind_from_shift)
qed

lemma rfind_Cons_last: "c \<notin> set ys \<Longrightarrow> rfind (c # ys) c = 0"
  using rfind_append [of "[c]" ys c] by (simp add: rfind_def)

lemma slice_one:
  assumes "i < length p"
  shows "slice p (int i) (int i + 1) = [p ! i]"
proof -
  have dr: "drop i p = p ! i # drop (Suc i) p"
    using assms by (rule Cons_nth_drop_Suc [symmetric])
  have "nat (int i + 1) - nat (int i) = Suc 0" by simp
  then show ?thesis
    unfolding slice_def by (simp only: nat_int dr take_Suc_Cons take_0)
qed

lemma skip_leading_dots_eq:
  "i \<le> d \<Longrightarrow> d \<le> length p \<Longrightarrow>
   skip_leading_dots p (int d) (int i) =
     (if set (take (d - i) (drop i p)) \<subseteq> {CHR ''.''} then (p, [])
      else (take d p, drop d p))"
proof (induction "d - i" arbitrary: i)
  case 0
  then have "d = i" by simp
  then show ?case by (subst skip_leading_dots.simps) simp
next
  case (Suc k)
  then have lt: "i < d" and k: "k = d - Suc i" and le: "Suc i \<le> d" by simp_all
  have il: "i < length p" using lt Suc.prems by simp
  have dr: "drop i p = p ! i # drop (Suc i) p"
    using il by (rule Cons_nth_drop_Suc [symmetric])
  have "d - i = Suc (d - Suc i)" using lt by simp
  then have tk: "take (d - i) (drop i p) = p ! i # take (d - Suc i) (drop (Suc i) p)"
    by (simp only: dr take_Suc_Cons)
  have ih: "skip_leading_dots p (int d) (int (Suc i)) =
     (if set (take (d - Suc i) (drop (Suc i) p)) \<subseteq> {CHR ''.''} then (p, [])
      else (take d p, drop d p))"
    using Suc.hyps(1) [OF k le Suc.prems(2)] .
  have s1: "int i + 1 = int (Suc i)" by simp
  have unf0: "skip_leading_dots p (int d) (int i) =
      (if slice p (int i) (int i + 1) \<noteq> ''.'' then (take (nat (int d)) p, drop (nat (int d)) p)
       else skip_leading_dots p (int d) (int i + 1))"
    using lt by (subst skip_leading_dots.simps) (simp only: of_nat_less_iff if_True)
  have unf: "skip_leading_dots p (int d) (int i) =
      (if [p ! i] \<noteq> ''.'' then (take d p, drop d p)
       else skip_leading_dots p (int d) (int (Suc i)))"
    unfolding unf0 slice_one [OF il] unfolding s1 nat_int by (rule refl)
  show ?case
    unfolding unf ih tk by simp
qed

subsection \<open>join and splitext on the paths of candidates\<close>

lemma endswith_append: "endswith (s @ suf) suf"
  by (simp add: endswith_def)

lemma endswith_split: "endswith s suf \<Longrightarrow> s = take (length s - length suf) s @ suf"
  unfolding endswith_def by (metis append_take_drop_id)

lemma endswith_sep: "endswith a ''/'' \<longleftrightarrow> a \<noteq> [] \<and> last a = CHR ''/''"
proof (cases a rule: rev_cases)
  case Nil
  then show ?thesis by (simp add: endswith_def)
next
  case (snoc ys y)
  then show ?thesis by (simp add: endswith_def)
qed

lemma startswith_sep: "startswith b ''/'' \<longleftrightarrow> b \<noteq> [] \<and> hd b = CHR ''/''"
  by (cases b) (simp_all add: startswith_def)

lemma join_plain:
  "\<not> startswith b ''/'' \<Longrightarrow>
   join a b = (if a = [] \<or> last a = CHR ''/'' then a else a @ ''/'') @ b"
  by (simp add: join_def endswith_sep)

lemma splitext_candidate:
  assumes pre: "pre = [] \<or> last pre = CHR ''/''" and stem: "CHR ''/'' \<notin> set stem"
  shows "splitext (pre @ stem @ ''.md'') =
    (if set stem \<subseteq> {CHR ''.''} then (pre @ stem @ ''.md'', []) else (pre @ stem, ''.md''))"
proof -
  let ?p = "pre @ stem @ ''.md''"
  have dot: "rfind ?p CHR ''.'' = int (length pre + length stem)"
  proof -
    have "rfind ((pre @ stem) @ ''.md'') CHR ''.'' = int (length (pre @ stem)) + rfind ''.md'' CHR ''.''"
      by (subst rfind_append) simp
    moreover have "rfind ''.md'' CHR ''.'' = 0"
      by (rule rfind_Cons_last) simp
    ultimately show ?thesis by simp
  qed
  have sep: "rfind ?p CHR ''/'' + 1 = int (length pre)"
  proof (cases "pre = []")
    case True
    then show ?thesis using stem by (simp add: rfind_notin)
  next
    case False
    then obtain q where q: "pre = q @ ''/''"
      using pre by (metis append_butlast_last_id)
    have "rfind ((q @ ''/'') @ (stem @ ''.md'')) CHR ''/'' = rfind (q @ ''/'') CHR ''/''"
      using stem by (subst rfind_append) simp
    also have "\<dots> = int (length q) + rfind ''/'' CHR ''/''"
      by (subst rfind_append) simp
    also have "rfind ''/'' CHR ''/'' = 0"
      by (rule rfind_Cons_last) simp
    finally show ?thesis by (simp add: q)
  qed
  have gt: "rfind ?p CHR ''.'' > rfind ?p CHR ''/''"
    using sep dot by linarith
  have sp: "splitext ?p = skip_leading_dots ?p (int (length pre + length stem)) (int (length pre))"
    using gt by (simp only: splitext_def Let_def if_True sep) (simp only: dot)
  have "skip_leading_dots ?p (int (length pre + length stem)) (int (length pre)) =
     (if set (take (length pre + length stem - length pre) (drop (length pre) ?p)) \<subseteq> {CHR ''.''}
      then (?p, []) else (take (length pre + length stem) ?p, drop (length pre + length stem) ?p))"
    by (rule skip_leading_dots_eq) simp_all
  then show ?thesis
    unfolding sp by simp
qed

lemma md_stem_split: "endswith file ''.md'' \<Longrightarrow> file = md_stem file @ ''.md''"
  using endswith_split [of "file" "''.md''"] unfolding md_stem_def by simp

lemma md_stem_no_sep: "CHR ''/'' \<notin> set file \<Longrightarrow> CHR ''/'' \<notin> set (md_stem file)"
  unfolding md_stem_def by (meson in_set_takeD)

lemma no_sep_not_startswith: "CHR ''/'' \<notin> set b \<Longrightarrow> \<not> startswith b ''/''"
  by (cases b) (auto simp: startswith_def)

lemma ipynb_path_of_candidate:
  assumes nosep: "CHR ''/'' \<notin> set file" and md: "endswith file ''.md''"
  shows "ipynb_path_of root file =
    (if set (md_stem file) \<subseteq> {CHR ''.''} then join root file @ ''.ipynb''
     else (if root = [] \<or> last root = CHR ''/'' then root else root @ ''/'')
          @ md_stem file @ ''.ipynb'')"
proof -
  let ?pre = "if root = [] \<or> last root = CHR ''/'' then root else root @ ''/''"
  have j: "join root file = ?pre @ md_stem file @ ''.md''"
    using join_plain [OF no_sep_not_startswith [OF nosep], of root] md_stem_split [OF md]
    by simp
  have pre: "?pre = [] \<or> last ?pre = CHR ''/''" by simp
  have "splitext (?pre @ md_stem file @ ''.md'') =
      (if set (md_stem file) \<subseteq> {CHR ''.''} then (?pre @ md_stem file @ ''.md'', [])
       else (?pre @ md_stem file, ''.md''))"
    using pre md_stem_no_sep [OF nosep] by (rule splitext_candidate)
  then show ?thesis
    unfolding ipynb_path_of_def j by (simp split: if_splits)
qed

lemma spec_output_path_candidate:
  assumes nosep: "CHR ''/'' \<notin> set file" and md: "endswith file ''.md''"
  shows "spec_output_path (join root file) =
     (if root = [] \<or> last root = CHR ''/'' then root else root @ ''/'') @ md_stem file @ ''.ipynb''"
proof -
  let ?pre = "if root = [] \<or> last root = CHR ''/'' then root else root @ ''/''"
  have j: "join root file = (?pre @ md_stem file) @ ''.md''"
    using join_plain [OF no_sep_not_startswith [OF nosep], of root] md_stem_split [OF md]
    by simp
  have "rfind ((?pre @ md_stem file) @ ''.md'') CHR ''.'' =
      int (length (?pre @ md_stem file)) + rfind ''.md'' CHR ''.''"
    by (subst rfind_append) simp
  moreover have "rfind ''.md'' CHR ''.'' = 0"
    by (rule rfind_Cons_last) simp
  ultimately have "rfind (join root file) CHR ''.'' = int (length (?pre @ md_stem file))"
    unfolding j by simp
  then show ?thesis
    unfolding spec_output_path_def by (simp add: j del: append_assoc)
qed

section \<open>Properties of the file system\<close>

subsection \<open>Storing a regular file\<close>

lemma file_at_iff: "file_at t l \<longleftrightarrow> (\<exists>fw c. lookup t l = Some (File fw c))"
  by (auto simp: file_at_def split: option.splits node.splits)

lemma dir_at_iff: "dir_at t l \<longleftrightarrow> (\<exists>dw es. lookup t l = Some (Dir dw es))"
  by (auto simp: dir_at_def split: option.splits node.splits)

lemma file_at_stat: "file_at t l \<longleftrightarrow> (\<exists>fw c. stat t l = Some (Reg fw c))"
proof -
  have "shallow u = Reg fw c \<longleftrightarrow> u = File fw c" for u fw c by (cases u) auto
  then show ?thesis by (auto simp: file_at_iff stat_def)
qed

lemma dir_at_stat: "dir_at t l \<longleftrightarrow> (\<exists>dw. stat t l = Some (Directory dw))"
proof -
  have "shallow u = Directory dw \<longleftrightarrow> (\<exists>es. u = Dir dw es)" for u dw by (cases u) auto
  then show ?thesis by (auto simp: dir_at_iff stat_def)
qed

lemma lookup_append:
  "lookup t (l @ l') = (case lookup t l of None \<Rightarrow> None | Some u \<Rightarrow> lookup u l')"
proof (induction l arbitrary: t)
  case Nil
  show ?case by simp
next
  case (Cons n ns)
  show ?case by (cases t) (simp_all add: Cons.IH split: option.splits)
qed

lemma update_new: "map_of es n = None \<Longrightarrow> AList.update n v es = es @ [(n, v)]"
  by (induction es) (auto split: if_splits)

lemma file_slot_Nil: "file_slot t [] \<longleftrightarrow> (\<exists>fw c. t = File fw c)"
  by (simp add: file_slot_def file_at_iff)

lemma file_slot_File: "\<not> file_slot (File fw c) (n # ns)"
  by (cases ns) (simp_all add: file_slot_def file_at_iff dir_at_iff)

lemma file_slot_Dir_None:
  "map_of es n = None \<Longrightarrow> file_slot (Dir dw es) (n # ns) \<longleftrightarrow> ns = []"
  by (cases ns) (simp_all add: file_slot_def file_at_iff dir_at_iff)

lemma file_slot_Dir_Some:
  "map_of es n = Some u \<Longrightarrow> file_slot (Dir dw es) (n # ns) \<longleftrightarrow> file_slot u ns"
  by (cases ns; cases u) (simp_all add: file_slot_def file_at_iff dir_at_iff)

lemma stat_put_same:
  "file_slot t l \<Longrightarrow> stat (put l (File b c) t) l = Some (Reg b c)"
proof (induction l arbitrary: t)
  case Nil
  then show ?case by (simp add: stat_def)
next
  case (Cons n ns)
  show ?case
  proof (cases t)
    case (File fw c0)
    with Cons.prems show ?thesis by (simp add: file_slot_File)
  next
    case (Dir dw es)
    show ?thesis
    proof (cases "map_of es n")
      case None
      with Cons.prems Dir have "ns = []" by (simp add: file_slot_Dir_None)
      with None Dir show ?thesis by (simp add: stat_def update_conv')
    next
      case (Some u)
      with Cons.prems Dir have "file_slot u ns" by (simp add: file_slot_Dir_Some)
      from Cons.IH [OF this] Some Dir show ?thesis by (simp add: stat_def update_conv')
    qed
  qed
qed

lemma stat_put_other:
  "file_slot t l \<Longrightarrow> l' \<noteq> l \<Longrightarrow> stat (put l (File b c) t) l' = stat t l'"
proof (induction l arbitrary: t l')
  case Nil
  then obtain fw c0 where t: "t = File fw c0" by (auto simp: file_slot_Nil)
  from Nil.prems(2) obtain m ms where "l' = m # ms" by (cases l') auto
  with t show ?case by (simp add: stat_def)
next
  case (Cons n ns)
  show ?case
  proof (cases t)
    case (File fw c0)
    with Cons.prems show ?thesis by (simp add: file_slot_File)
  next
    case (Dir dw es)
    show ?thesis
    proof (cases l')
      case Nil
      with Dir show ?thesis by (simp add: stat_def split: option.splits)
    next
      case l': (Cons m ms)
      show ?thesis
      proof (cases "map_of es n")
        case None
        with Cons.prems Dir have ns: "ns = []" by (simp add: file_slot_Dir_None)
        show ?thesis
        proof (cases "m = n")
          case True
          with ns l' Cons.prems(2) obtain k ks where "ms = k # ks" by (cases ms) auto
          with True None Dir l' ns show ?thesis by (simp add: stat_def update_conv')
        next
          case False
          with None Dir l' ns show ?thesis by (simp add: stat_def update_conv')
        qed
      next
        case (Some u)
        with Cons.prems Dir have fs: "file_slot u ns" by (simp add: file_slot_Dir_Some)
        show ?thesis
        proof (cases "m = n")
          case True
          with l' Cons.prems(2) have "ms \<noteq> ns" by simp
          from Cons.IH [OF fs this] True Some Dir l' show ?thesis
            by (simp add: stat_def update_conv')
        next
          case False
          with Some Dir l' show ?thesis by (simp add: stat_def update_conv')
        qed
      qed
    qed
  qed
qed


lemma dir_at_put: "file_slot t l \<Longrightarrow> dir_at (put l (File b c) t) l' = dir_at t l'"
proof (cases "l' = l")
  case True
  assume fs: "file_slot t l"
  then have "\<not> dir_at t l"
    by (auto simp: file_slot_def file_at_iff dir_at_iff)
  moreover have "\<not> dir_at (put l (File b c) t) l"
    using stat_put_same [OF fs, of b c] by (simp add: dir_at_stat)
  ultimately show ?thesis using True by simp
next
  case False
  assume "file_slot t l"
  from stat_put_other [OF this False] show ?thesis by (simp add: dir_at_stat)
qed

lemma put_put:
  "file_slot t l \<Longrightarrow> put l v2 (put l (File b c) t) = put l v2 t"
proof (induction l arbitrary: t)
  case Nil
  show ?case by simp
next
  case (Cons n ns)
  show ?case
  proof (cases t)
    case (File fw c0)
    with Cons.prems show ?thesis by (simp add: file_slot_File)
  next
    case (Dir dw es)
    show ?thesis
    proof (cases "map_of es n")
      case None
      with Cons.prems Dir have "ns = []" by (simp add: file_slot_Dir_None)
      with None Dir show ?thesis by (simp add: update_conv')
    next
      case (Some u)
      with Cons.prems Dir have "file_slot u ns" by (simp add: file_slot_Dir_Some)
      from Cons.IH [OF this] Some Dir show ?thesis by (simp add: update_conv')
    qed
  qed
qed

lemma wf_update:
  assumes "distinct (map fst es)" "\<forall>e \<in> set es. proper_name (fst e) \<and> wf_node (snd e)"
    "proper_name n" "wf_node v"
  shows "distinct (map fst (AList.update n v es)) \<and>
         (\<forall>e \<in> set (AList.update n v es). proper_name (fst e) \<and> wf_node (snd e))"
  using assms by (induction es) (auto simp: distinct_update dom_update split: if_splits)

lemma map_of_wf:
  "\<forall>e \<in> set es. proper_name (fst e) \<and> wf_node (snd e) \<Longrightarrow> map_of es n = Some u \<Longrightarrow>
   proper_name n \<and> wf_node u"
proof -
  assume a: "\<forall>e \<in> set es. proper_name (fst e) \<and> wf_node (snd e)"
    and b: "map_of es n = Some u"
  from map_of_SomeD [OF b] have "(n, u) \<in> set es" .
  with a show ?thesis by fastforce
qed

lemma wf_put:
  "wf_node t \<Longrightarrow> file_slot t l \<Longrightarrow> l \<noteq> [] \<longrightarrow> proper_name (last l) \<Longrightarrow>
   wf_node (put l (File b c) t)"
proof (induction l arbitrary: t)
  case Nil
  show ?case by simp
next
  case (Cons n ns)
  show ?case
  proof (cases t)
    case (File fw c0)
    with Cons.prems show ?thesis by (simp add: file_slot_File)
  next
    case (Dir dw es)
    with Cons.prems have d: "distinct (map fst es)"
      and a: "\<forall>e \<in> set es. proper_name (fst e) \<and> wf_node (snd e)" by simp_all
    show ?thesis
    proof (cases "map_of es n")
      case None
      with Cons.prems Dir have ns: "ns = []" by (simp add: file_slot_Dir_None)
      with Cons.prems(3) have "proper_name n" by simp
      from wf_update [OF d a this, of "File b c"] None Dir ns show ?thesis by simp
    next
      case (Some u)
      with Cons.prems Dir have fs: "file_slot u ns" by (simp add: file_slot_Dir_Some)
      from map_of_wf [OF a Some] have pn: "proper_name n" and wu: "wf_node u" by simp_all
      have "ns \<noteq> [] \<longrightarrow> proper_name (last ns)" using Cons.prems(3) by (simp split: if_splits)
      from Cons.IH [OF wu fs this] have "wf_node (put ns (File b c) u)" .
      from wf_update [OF d a pn this] Some Dir show ?thesis by simp
    qed
  qed
qed

subsection \<open>Resolution\<close>

lemma split_sep_nonempty: "split_sep p \<noteq> []"
  by (induction p) (auto split: list.splits)

lemma split_sep_plain: "CHR ''/'' \<notin> set n \<Longrightarrow> split_sep n = [n]"
  by (induction n) auto

lemma split_sep_append:
  "CHR ''/'' \<notin> set n \<Longrightarrow> split_sep (a @ CHR ''/'' # n) = split_sep a @ [n]"
proof (induction a)
  case Nil
  then show ?case by (simp add: split_sep_plain)
next
  case (Cons x xs)
  then show ?case
    using split_sep_nonempty [of xs] by (cases "split_sep xs") auto
qed

lemma split_sep_trailing: "split_sep (q @ ''/'') = split_sep q @ [[]]"
  using split_sep_append [of "[]" q] by simp

lemma namei_step_result:
  "namei_step t r c = Some l \<Longrightarrow> \<exists>cur. r = Some cur \<and> dir_at t cur"
  by (cases r) (auto simp: dir_at_iff split: option.splits node.splits)

lemma namei_step_empty: "namei_step t r [] = Some l \<Longrightarrow> r = Some l"
  by (cases r) (auto split: option.splits node.splits)

lemma namei_step_name:
  "dir_at t l \<Longrightarrow> proper_name n \<Longrightarrow> namei_step t (Some l) n = Some (l @ [n])"
  by (auto simp: dir_at_iff proper_name_def)

text \<open>
  The path of an entry \<open>n\<close> of the directory that \<open>topdir\<close> names, as \<open>join\<close> builds it,
  resolves to the location of the directory extended with \<open>n\<close>.
\<close>

lemma resolve_entry:
  assumes r: "resolve t cwd topdir = Some l" and d: "dir_at t l" and n: "proper_name n"
  shows "resolve t cwd ((if topdir = [] \<or> last topdir = CHR ''/'' then topdir else topdir @ ''/'') @ n)
          = Some (l @ [n])"
proof -
  from r have ne: "topdir \<noteq> []" by (auto simp: resolve_def)
  let ?start = "Some (if startswith topdir ''/'' then [] else cwd)"
  from r ne have f: "foldl (namei_step t) ?start (split_sep topdir) = Some l"
    by (simp add: resolve_def)
  from n have nosep: "CHR ''/'' \<notin> set n" by (simp add: proper_name_def)
  have st: "startswith (topdir @ x) ''/'' = startswith topdir ''/''" for x
    using ne by (cases topdir) (simp_all add: startswith_def)
  show ?thesis
  proof (cases "last topdir = CHR ''/''")
    case True
    with ne obtain q where q: "topdir = q @ ''/''"
      by (metis append_butlast_last_id)
    from f have "namei_step t (foldl (namei_step t) ?start (split_sep q)) [] = Some l"
      by (simp add: q split_sep_trailing)
    then have "foldl (namei_step t) ?start (split_sep q) = Some l"
      by (rule namei_step_empty)
    then have "foldl (namei_step t) ?start (split_sep (q @ CHR ''/'' # n)) = Some (l @ [n])"
      using nosep d n by (simp add: split_sep_append namei_step_name del: namei_step.simps)
    moreover have "topdir @ n = q @ CHR ''/'' # n" by (simp add: q)
    ultimately show ?thesis
      using True ne st [of n] by (simp add: resolve_def)
  next
    case False
    have "foldl (namei_step t) ?start (split_sep (topdir @ CHR ''/'' # n)) = Some (l @ [n])"
      using f nosep d n by (simp add: split_sep_append namei_step_name del: namei_step.simps)
    then show ?thesis
      using False ne st [of "CHR ''/'' # n"] by (simp add: resolve_def)
  qed
qed

lemma namei_step_cong:
  "(\<And>l. dir_at t l = dir_at t' l) \<Longrightarrow> namei_step t r c = namei_step t' r c"
proof (cases r)
  case None
  then show ?thesis by simp
next
  case (Some cur)
  assume "\<And>l. dir_at t l = dir_at t' l"
  then have "dir_at t cur = dir_at t' cur" .
  then show ?thesis
    unfolding Some by (auto simp: dir_at_def split: option.splits node.splits)
qed

lemma resolve_cong:
  assumes "\<And>l. dir_at t l = dir_at t' l"
  shows "resolve t cwd p = resolve t' cwd p"
proof -
  have "foldl (namei_step t) r cs = foldl (namei_step t') r cs" for r cs
    by (induction cs arbitrary: r) (simp_all add: namei_step_cong [OF assms])
  then show ?thesis by (simp add: resolve_def)
qed

lemma resolve_put:
  "file_slot t l \<Longrightarrow> resolve (put l (File b c) t) cwd p = resolve t cwd p"
  by (rule resolve_cong) (rule dir_at_put)

subsection \<open>The body of the loop on a candidate\<close>

lemma dir_prefix_eq:
  "dir_prefix a = (if a = [] \<or> last a = CHR ''/'' then a else a @ ''/'')"
  by (simp add: dir_prefix_def endswith_sep)

lemma join_entry: "CHR ''/'' \<notin> set n \<Longrightarrow> join a n = dir_prefix a @ n"
  using join_plain [OF no_sep_not_startswith, of n a] by (simp add: dir_prefix_eq)

lemma ipynb_path_of_entry:
  assumes "CHR ''/'' \<notin> set file" and "endswith file ''.md''"
  shows "ipynb_path_of root file = dir_prefix root @ dest_name file"
  using ipynb_path_of_candidate [OF assms, of root] join_entry [OF assms(1), of root]
  by (simp add: dir_prefix_eq dest_name_def)

lemma endswith_ipynb_not_md: "\<not> endswith (s @ ''.ipynb'') ''.md''"
  by (simp add: endswith_def)

lemma dest_name_not_md: "\<not> endswith (dest_name file) ''.md''"
  unfolding dest_name_def by (rule endswith_ipynb_not_md)

lemma proper_name_dest:
  assumes "CHR ''/'' \<notin> set file"
  shows "proper_name (dest_name file)"
proof -
  have "CHR ''/'' \<notin> set (md_stem file)" using assms by (rule md_stem_no_sep)
  with assms have "CHR ''/'' \<notin> set (dest_name file)" by (simp add: dest_name_def)
  moreover have "dest_name file \<noteq> []" "dest_name file \<noteq> ''.''" "dest_name file \<noteq> ''..''"
    by (auto simp: dest_name_def append_eq_Cons_conv)
  ultimately show ?thesis by (simp add: proper_name_def)
qed

lemma resolve_join:
  assumes "resolve t cwd root = Some d" and "dir_at t d" and "proper_name n"
  shows "resolve t cwd (join root n) = Some (d @ [n])"
proof -
  from assms(3) have "CHR ''/'' \<notin> set n" by (simp add: proper_name_def)
  then show ?thesis
    using resolve_entry [OF assms] by (simp add: join_entry dir_prefix_eq)
qed

lemma resolve_ipynb_path:
  assumes "resolve t cwd root = Some d" and "dir_at t d"
    and "CHR ''/'' \<notin> set file" and "endswith file ''.md''"
  shows "resolve t cwd (ipynb_path_of root file) = Some (d @ [dest_name file])"
  using resolve_entry [OF assms(1,2) proper_name_dest [OF assms(3)]]
  by (simp add: ipynb_path_of_entry [OF assms(3,4)] dir_prefix_eq)

lemma writable_slot_file_slot:
  assumes "writable_slot t l"
  shows "file_slot t l"
proof (cases "lookup t l")
  case None
  then have "l \<noteq> []" by auto
  moreover from assms None have "dir_at t (butlast l)"
    by (auto simp: writable_slot_def dir_at_def split: option.splits node.splits)
  ultimately show ?thesis using None by (simp add: file_slot_def)
next
  case (Some u)
  with assms show ?thesis
    by (auto simp: writable_slot_def file_slot_def file_at_def split: node.splits)
qed

lemma py_open_resolved:
  assumes "resolve (filesystem w) (workdir w) p = Some l"
  shows "py_open p w =
    (if writable_slot (filesystem w) l
     then (Inr (p, l), w\<lparr>filesystem := put l (File True []) (filesystem w),
                          trace := trace w @ [Open p]\<rparr>)
     else (Inl (open_error (filesystem w) l p), w))"
  using assms
  by (auto simp: py_open_def writable_slot_def open_error_def split: option.splits node.splits)

lemma write_fd_opened:
  assumes "file_slot t l"
  shows "write_fd l bs (put l (File True []) t) = put l (File True bs) t"
proof -
  have "stat (put l (File True []) t) l = Some (Reg True [])"
    using assms by (rule stat_put_same)
  then have "lookup (put l (File True []) t) l = Some (File True [])"
    by (auto simp: stat_def elim: shallow.elims)
  then show ?thesis
    by (simp add: write_fd_def put_put [OF assms])
qed

lemma convert_file_candidate:
  assumes md: "endswith file ''.md''" and nosep: "CHR ''/'' \<notin> set file"
    and r: "resolve (filesystem w) (workdir w) root = Some d"
    and d: "dir_at (filesystem w) d"
  shows "convert_file exec root file w =
    (let p = ipynb_path_of root file; l = d @ [dest_name file]; t = filesystem w;
         args = [''notedown'', join root file]
     in if writable_slot t l then
          (case exec ''notedown'' of
             None \<Rightarrow>
               (Inl (FileNotFoundError ''notedown''),
                w\<lparr>filesystem := put l (File True []) t,
                  trace := trace w @ [announce root file, Open p, Close p]\<rparr>)
           | Some prog \<Rightarrow>
               (Inr (),
                w\<lparr>filesystem :=
                    put l (File True (out (prog args (workdir w) (put l (File True []) t)))) t,
                  trace := trace w @ [announce root file, Open p, Run args, Close p]\<rparr>))
        else (Inl (open_error t l p), w\<lparr>trace := trace w @ [announce root file]\<rparr>))"
proof -
  let ?p = "ipynb_path_of root file"
  let ?w1 = "print (''Converting: '' @ join root file @ '' -> '' @ ?p) w"
  have w1: "filesystem ?w1 = filesystem w" "workdir ?w1 = workdir w"
    "trace ?w1 = trace w @ [announce root file]"
    by (simp_all add: print_def announce_def)
  have res: "resolve (filesystem ?w1) (workdir ?w1) ?p = Some (d @ [dest_name file])"
    unfolding w1 using r d nosep md by (rule resolve_ipynb_path)
  note op = py_open_resolved [OF res, unfolded w1]
  have cf: "convert_file exec root file w =
     (case py_open ?p ?w1 of
        (Inl e, w2) \<Rightarrow> (Inl e, w2)
      | (Inr outfile, w2) \<Rightarrow>
          (case subprocess_run exec [''notedown'', join root file] outfile w2 of
             (Inl e, w3) \<Rightarrow> (Inl e, py_close outfile w3)
           | (Inr completed, w3) \<Rightarrow> (Inr (), py_close outfile w3)))"
    using md by (simp add: convert_file_def ipynb_path_of_def Let_def)
  show ?thesis
  proof (cases "writable_slot (filesystem w) (d @ [dest_name file])")
    case False
    then show ?thesis
      unfolding cf op by (simp add: print_def announce_def)
  next
    case True
    note fs = writable_slot_file_slot [OF True]
    show ?thesis
      unfolding cf op using True
      by (simp add: subprocess_run_def py_close_def write_fd_opened [OF fs] Let_def
          print_def announce_def split: option.splits)
  qed
qed

subsection \<open>The walk\<close>

lemma lookup_child:
  assumes "lookup t l = Some (Dir dw es)" and "distinct (map fst es)" and "(n, u) \<in> set es"
  shows "lookup t (l @ [n]) = Some u"
proof -
  from assms(2,3) have "map_of es n = Some u" by simp
  with assms(1) show ?thesis by (simp add: lookup_append)
qed

lemma scandir_join:
  assumes "resolve t cwd topdir = Some l" and "lookup t l = Some (Dir dw es)"
    and "distinct (map fst es)" and "(dirname, Dir w sub) \<in> set es" and "proper_name dirname"
  shows "scandir t cwd (join topdir dirname) = Inr sub"
proof -
  have "dir_at t l" using assms(2) by (simp add: dir_at_iff)
  with assms(1) have "resolve t cwd (join topdir dirname) = Some (l @ [dirname])"
    using assms(5) by (rule resolve_join)
  moreover have "lookup t (l @ [dirname]) = Some (Dir w sub)"
    using assms(2,3,4) by (rule lookup_child)
  ultimately show ?thesis by (simp add: scandir_def)
qed

lemma walk_resolves:
  "lookup t l = Some (Dir dw es) \<Longrightarrow> wf_node (Dir dw es) \<Longrightarrow> resolve t cwd topdir = Some l \<Longrightarrow>
   map (\<lambda>(root, ds, fs). (resolve t cwd root, ds, fs)) (walk_dir topdir es) =
   map (\<lambda>(d, ds, fs). (Some d, ds, fs)) (walk_locs l es)"
  and "dir_at t l \<Longrightarrow> resolve t cwd topdir = Some l \<Longrightarrow>
   \<forall>e \<in> set es'. proper_name (fst e) \<and> wf_node (snd e) \<and> lookup t (l @ [fst e]) = Some (snd e) \<Longrightarrow>
   map (\<lambda>(root, ds, fs). (resolve t cwd root, ds, fs)) (walk_subdirs topdir es') =
   map (\<lambda>(d, ds, fs). (Some d, ds, fs)) (walk_sublocs l es')"
proof (induction topdir es and topdir es' arbitrary: l dw and l rule: walk_dir_walk_subdirs.induct)
  case (1 topdir es)
  have d: "dir_at t l" using "1.prems"(1) by (simp add: dir_at_iff)
  have "\<forall>e \<in> set es. proper_name (fst e) \<and> wf_node (snd e) \<and> lookup t (l @ [fst e]) = Some (snd e)"
  proof
    fix e assume e: "e \<in> set es"
    then have "(fst e, snd e) \<in> set es" by simp
    from lookup_child [OF "1.prems"(1) _ this] "1.prems"(2) e
    show "proper_name (fst e) \<and> wf_node (snd e) \<and> lookup t (l @ [fst e]) = Some (snd e)"
      by simp
  qed
  from "1.IH" [OF d "1.prems"(3) this] "1.prems"(3) show ?case by simp
next
  case (2 topdir)
  show ?case by simp
next
  case (3 topdir dirname w c es)
  then show ?case by simp
next
  case (4 topdir dirname w sub es)
  have pn: "proper_name dirname" and wf: "wf_node (Dir w sub)"
    and lk: "lookup t (l @ [dirname]) = Some (Dir w sub)"
    using "4.prems"(3) by simp_all
  have r: "resolve t cwd (join topdir dirname) = Some (l @ [dirname])"
    using "4.prems"(2,1) pn by (rule resolve_join)
  have a: "map (\<lambda>(root, ds, fs). (resolve t cwd root, ds, fs)) (walk_dir (join topdir dirname) sub) =
           map (\<lambda>(d, ds, fs). (Some d, ds, fs)) (walk_locs (l @ [dirname]) sub)"
    using lk wf r by (rule "4.IH"(1))
  have b: "map (\<lambda>(root, ds, fs). (resolve t cwd root, ds, fs)) (walk_subdirs topdir es) =
           map (\<lambda>(d, ds, fs). (Some d, ds, fs)) (walk_sublocs l es)"
    using "4.prems" by (intro "4.IH"(2)) simp_all
  show ?case
    unfolding walk_subdirs.simps walk_sublocs.simps map_append a b ..
qed



lemma walk_locs_listing:
  "wf_node (Dir dw es) \<Longrightarrow>
   \<forall>x \<in> set (walk_locs l es). \<exists>r dw' es'. fst x = l @ r \<and> lookup (Dir dw es) r = Some (Dir dw' es') \<and>
      snd x = (dirs_of es', nondirs_of es')"
  "\<forall>e \<in> set es'. wf_node (snd e) \<Longrightarrow>
   \<forall>x \<in> set (walk_sublocs l es'). \<exists>n u r dw' es''. (n, u) \<in> set es' \<and> fst x = l @ n # r \<and>
      lookup u r = Some (Dir dw' es'') \<and> snd x = (dirs_of es'', nondirs_of es'')"
proof (induction l es and l es' arbitrary: dw and rule: walk_locs_walk_sublocs.induct)
  case (1 l es)
  show ?case
  proof
    fix x assume "x \<in> set (walk_locs l es)"
    then consider "x = (l, dirs_of es, nondirs_of es)" | "x \<in> set (walk_sublocs l es)" by auto
    then show "\<exists>r dw' es'. fst x = l @ r \<and> lookup (Dir dw es) r = Some (Dir dw' es') \<and>
      snd x = (dirs_of es', nondirs_of es')"
    proof cases
      case 1
      then have "fst x = l @ [] \<and> lookup (Dir dw es) [] = Some (Dir dw es) \<and>
        snd x = (dirs_of es, nondirs_of es)" by simp
      then show ?thesis by blast
    next
      case 2
      have "\<forall>e \<in> set es. wf_node (snd e)" using "1.prems" by simp
      from "1.IH" [OF this] 2 obtain n u r dw' es'' where
        nu: "(n, u) \<in> set es" and x: "fst x = l @ n # r"
        and lk: "lookup u r = Some (Dir dw' es'')" and s: "snd x = (dirs_of es'', nondirs_of es'')"
        by blast
      from nu "1.prems" have "map_of es n = Some u" by simp
      with lk have "lookup (Dir dw es) (n # r) = Some (Dir dw' es'')" by simp
      with x s show ?thesis by blast
    qed
  qed
next
  case (2 l)
  show ?case by simp
next
  case (3 l dirname w c es)
  show ?case
  proof
    fix x assume "x \<in> set (walk_sublocs l ((dirname, File w c) # es))"
    then have x: "x \<in> set (walk_sublocs l es)" by simp
    have "\<forall>e \<in> set es. wf_node (snd e)" using "3.prems" by simp
    from "3.IH" [OF this] x obtain n u r dw' es'' where
      "(n, u) \<in> set es" "fst x = l @ n # r" "lookup u r = Some (Dir dw' es'')"
      "snd x = (dirs_of es'', nondirs_of es'')" by blast
    then have "(n, u) \<in> set ((dirname, File w c) # es) \<and> fst x = l @ n # r \<and>
      lookup u r = Some (Dir dw' es'') \<and> snd x = (dirs_of es'', nondirs_of es'')" by simp
    then show "\<exists>n u r dw' es''. (n, u) \<in> set ((dirname, File w c) # es) \<and> fst x = l @ n # r \<and>
      lookup u r = Some (Dir dw' es'') \<and> snd x = (dirs_of es'', nondirs_of es'')" by blast
  qed
next
  case (4 l dirname w sub es)
  show ?case
  proof
    fix x assume "x \<in> set (walk_sublocs l ((dirname, Dir w sub) # es))"
    then consider "x \<in> set (walk_locs (l @ [dirname]) sub)" | "x \<in> set (walk_sublocs l es)"
      by auto
    then show "\<exists>n u r dw' es''. (n, u) \<in> set ((dirname, Dir w sub) # es) \<and> fst x = l @ n # r \<and>
      lookup u r = Some (Dir dw' es'') \<and> snd x = (dirs_of es'', nondirs_of es'')"
    proof cases
      case 1
      have "wf_node (Dir w sub)" using "4.prems" by simp
      from "4.IH"(1) [OF this] 1 obtain r dw' es' where
        "fst x = (l @ [dirname]) @ r" "lookup (Dir w sub) r = Some (Dir dw' es')"
        "snd x = (dirs_of es', nondirs_of es')" by blast
      then have "(dirname, Dir w sub) \<in> set ((dirname, Dir w sub) # es) \<and> fst x = l @ dirname # r \<and>
        lookup (Dir w sub) r = Some (Dir dw' es') \<and> snd x = (dirs_of es', nondirs_of es')"
        by simp
      then show ?thesis by blast
    next
      case 2
      have "\<forall>e \<in> set es. wf_node (snd e)" using "4.prems" by simp
      from "4.IH"(2) [OF this] 2 obtain n u r dw' es'' where
        "(n, u) \<in> set es" "fst x = l @ n # r" "lookup u r = Some (Dir dw' es'')"
        "snd x = (dirs_of es'', nondirs_of es'')" by blast
      then have "(n, u) \<in> set ((dirname, Dir w sub) # es) \<and> fst x = l @ n # r \<and>
        lookup u r = Some (Dir dw' es'') \<and> snd x = (dirs_of es'', nondirs_of es'')" by simp
      then show ?thesis by blast
    qed
  qed
qed


declare walk_dir.simps [simp del] walk_locs.simps [simp del]

lemma wf_lookup: "wf_node t \<Longrightarrow> lookup t l = Some u \<Longrightarrow> wf_node u"
proof (induction l arbitrary: t)
  case Nil
  then show ?case by simp
next
  case (Cons n ns)
  show ?case
  proof (cases t)
    case (File fw c)
    with Cons.prems show ?thesis by simp
  next
    case (Dir dw es)
    with Cons.prems obtain v where v: "map_of es n = Some v" and lk: "lookup v ns = Some u"
      by (auto split: option.splits)
    from map_of_SomeD [OF v] Cons.prems(1) Dir have "wf_node v" by fastforce
    from Cons.IH [OF this lk] show ?thesis .
  qed
qed

lemma list_all2_left: "list_all2 P xs ys \<Longrightarrow> x \<in> set xs \<Longrightarrow> \<exists>y \<in> set ys. P x y"
  by (induction rule: list_all2_induct) auto


lemma walk_resolves_rel:
  assumes "lookup t l = Some (Dir dw es)" and "wf_node (Dir dw es)"
    and "resolve t cwd topdir = Some l"
  shows "list_all2 (\<lambda>x y. resolve t cwd (fst x) = Some (fst y) \<and> snd x = snd y)
           (walk_dir topdir es) (walk_locs l es)"
proof -
  have "list_all2 (=) (map (\<lambda>(root, ds, fs). (resolve t cwd root, ds, fs)) (walk_dir topdir es))
          (map (\<lambda>(d, ds, fs). (Some d, ds, fs)) (walk_locs l es))"
    using walk_resolves(1) [OF assms] by (simp only: list_all2_eq [symmetric])
  then have "list_all2 (\<lambda>x y. (case x of (root, ds, fs) \<Rightarrow> (resolve t cwd root, ds, fs)) =
                (case y of (d, ds, fs) \<Rightarrow> (Some d, ds, fs)))
          (walk_dir topdir es) (walk_locs l es)"
    by (simp only: list_all2_map1 list_all2_map2)
  then show ?thesis
    by (rule list_all2_mono) (auto simp: case_prod_beta prod_eq_iff)
qed

text \<open>
  What the walk of a directory visits: each visited triple is the listing of a directory
  below the top one.
\<close>

lemma walk_dir_triple:
  assumes lk: "lookup t l = Some (Dir dw es)" and wf: "wf_node t"
    and r: "resolve t cwd topdir = Some l"
    and x: "(root, ds, fs) \<in> set (walk_dir topdir es)"
  shows "\<exists>q dw' es'. resolve t cwd root = Some (l @ q) \<and> lookup t (l @ q) = Some (Dir dw' es') \<and>
           wf_node (Dir dw' es') \<and> ds = dirs_of es' \<and> fs = nondirs_of es' \<and>
           (l @ q, ds, fs) \<in> set (walk_locs l es)"
proof -
  have wfd: "wf_node (Dir dw es)" using wf lk by (rule wf_lookup)
  from list_all2_left [OF walk_resolves_rel [OF lk wfd r] x]
  obtain y where y: "y \<in> set (walk_locs l es)" and ry: "resolve t cwd root = Some (fst y)"
    and sy: "snd y = (ds, fs)" by auto
  from walk_locs_listing(1) [OF wfd, of l] y obtain q dw' es' where
    q: "fst y = l @ q" and lq: "lookup (Dir dw es) q = Some (Dir dw' es')"
    and s: "snd y = (dirs_of es', nondirs_of es')" by blast
  have lk': "lookup t (l @ q) = Some (Dir dw' es')" using lk lq by (simp add: lookup_append)
  have "wf_node (Dir dw' es')" using wf lk' by (rule wf_lookup)
  moreover have "y = (l @ q, ds, fs)" using q sy by (simp add: prod_eq_iff)
  with y have "(l @ q, ds, fs) \<in> set (walk_locs l es)" by simp
  ultimately show ?thesis using ry q lk' s sy by auto
qed

lemma nondirs_of_file:
  assumes "distinct (map fst es)" and "f \<in> set (nondirs_of es)"
  shows "\<exists>fw c. map_of es f = Some (File fw c)"
proof -
  from assms(2) obtain u where u: "(f, u) \<in> set es" and nd: "\<not> is_dir u"
    by (auto simp: nondirs_of_def)
  from nd obtain fw c where "u = File fw c" by (cases u) auto
  with u assms(1) show ?thesis by simp
qed


lemma loop_files_iff:
  "(root, f) \<in> set (loop_files triples) \<longleftrightarrow> (\<exists>ds fs. (root, ds, fs) \<in> set triples \<and> f \<in> set fs)"
  by (fastforce simp: loop_files_def)

lemma os_walk_scanned:
  "resolve t cwd topdir = Some l \<Longrightarrow> lookup t l = Some (Dir dw es) \<Longrightarrow>
   os_walk t cwd topdir = walk_dir topdir es"
  by (simp add: os_walk_def scandir_def)

lemma os_walk_unresolved: "resolve t cwd topdir = None \<Longrightarrow> os_walk t cwd topdir = []"
  by (simp add: os_walk_def scandir_def)

lemma os_walk_not_dir:
  "resolve t cwd topdir = Some l \<Longrightarrow> \<not> dir_at t l \<Longrightarrow> os_walk t cwd topdir = []"
  by (cases "lookup t l"; cases "the (lookup t l)")
     (simp_all add: os_walk_def scandir_def dir_at_def)

text \<open>Every entry the loops visit is a regular file in a directory below the top one.\<close>

lemma visited_file:
  assumes lk: "lookup t l = Some (Dir dw es)" and wf: "wf_node t"
    and r: "resolve t cwd topdir = Some l"
    and x: "(root, f) \<in> set (loop_files (walk_dir topdir es))"
  shows "\<exists>q. resolve t cwd root = Some (l @ q) \<and> dir_at t (l @ q) \<and> proper_name f \<and>
             file_at t (l @ q @ [f]) \<and> resolve t cwd (join root f) = Some (l @ q @ [f])"
proof -
  from x obtain ds fs where tr: "(root, ds, fs) \<in> set (walk_dir topdir es)" and f: "f \<in> set fs"
    by (auto simp: loop_files_iff)
  from walk_dir_triple [OF lk wf r tr] obtain q dw' es' where
    rq: "resolve t cwd root = Some (l @ q)" and lq: "lookup t (l @ q) = Some (Dir dw' es')"
    and wq: "wf_node (Dir dw' es')" and fs: "fs = nondirs_of es'" by blast
  from wq have dist: "distinct (map fst es')" by simp
  from nondirs_of_file [OF dist] f fs obtain fw c where m: "map_of es' f = Some (File fw c)"
    by blast
  from map_of_SomeD [OF m] wq have pn: "proper_name f" by fastforce
  have d: "dir_at t (l @ q)" using lq by (simp add: dir_at_iff)
  have "lookup t ((l @ q) @ [f]) = Some (File fw c)"
    using lq m lookup_append [of t "l @ q" "[f]"] by simp
  then have fa: "file_at t (l @ q @ [f])" by (simp add: file_at_iff)
  have "resolve t cwd (join root f) = Some ((l @ q) @ [f])"
    using rq d pn by (rule resolve_join)
  with rq d pn fa show ?thesis by auto
qed


subsection \<open>The loops\<close>

lemma for_pairs_append:
  "for_pairs exec (xs @ ys) w =
     (case for_pairs exec xs w of (Inl e, w') \<Rightarrow> (Inl e, w') | (Inr u, w') \<Rightarrow> for_pairs exec ys w')"
proof (induction xs arbitrary: w)
  case Nil
  show ?case by simp
next
  case (Cons x xs)
  obtain root f where x: "x = (root, f)" by (cases x)
  show ?case
    unfolding x by (simp add: Cons.IH split: prod.splits sum.splits)
qed

lemma for_files_pairs: "for_files exec root files w = for_pairs exec (map (Pair root) files) w"
  by (induction files arbitrary: w) (simp_all split: prod.splits sum.splits)

lemma for_walk_pairs: "for_walk exec triples w = for_pairs exec (loop_files triples) w"
proof (induction triples arbitrary: w)
  case Nil
  show ?case by (simp add: loop_files_def)
next
  case (Cons x xs)
  obtain root dirs files where x: "x = (root, dirs, files)" by (cases x)
  have "loop_files (x # xs) = map (Pair root) files @ loop_files xs"
    by (simp add: loop_files_def x)
  then show ?case
    by (simp add: x for_pairs_append for_files_pairs Cons.IH split: prod.splits sum.splits)
qed

lemma convert_file_skip: "\<not> endswith file ''.md'' \<Longrightarrow> convert_file exec root file w = (Inr (), w)"
  by (simp add: convert_file_def)

lemma for_pairs_Cons:
  "for_pairs exec ((root, f) # rest) w =
     (case fst (convert_file exec root f w) of
        Inl e \<Rightarrow> (Inl e, snd (convert_file exec root f w))
      | Inr u \<Rightarrow> for_pairs exec rest (snd (convert_file exec root f w)))"
  by (cases "convert_file exec root f w") (simp split: sum.splits)

lemma for_pairs_filter: "for_pairs exec (filter is_candidate V) w = for_pairs exec V w"
proof (induction V arbitrary: w)
  case Nil
  show ?case by simp
next
  case (Cons x xs)
  obtain root f where x: "x = (root, f)" by (cases x)
  show ?case
  proof (cases "is_candidate x")
    case True
    then show ?thesis
      unfolding x by (simp add: Cons.IH split: prod.splits sum.splits)
  next
    case False
    then have "convert_file exec root f w = (Inr (), w)"
      by (simp add: x is_candidate_def convert_file_skip)
    with False show ?thesis
      unfolding x by (simp add: Cons.IH)
  qed
qed

lemma convert_md_to_ipynb_pairs:
  "convert_md_to_ipynb exec folder_path w =
     for_pairs exec (filter is_candidate (loop_files (os_walk (filesystem w) (workdir w) folder_path))) w"
  by (simp add: convert_md_to_ipynb_def for_walk_pairs for_pairs_filter)

subsection \<open>What storing files keeps\<close>

lemma stores_trans: "stores u v \<Longrightarrow> stores t u \<Longrightarrow> stores t v"
  by (induction rule: stores.induct) (auto intro: stores.intros)

lemma stores_dir_at: "stores t u \<Longrightarrow> dir_at u x = dir_at t x"
  by (induction rule: stores.induct) (simp_all add: dir_at_put)

lemma stores_resolve: "stores t u \<Longrightarrow> resolve u cwd p = resolve t cwd p"
  by (rule resolve_cong) (rule stores_dir_at)

lemma stores_wf: "stores t u \<Longrightarrow> wf_node t \<Longrightarrow> wf_node u"
  by (induction rule: stores.induct) (simp_all add: wf_put)

lemma file_at_put: "file_slot u l \<Longrightarrow> file_at u x \<Longrightarrow> file_at (put l (File b c) u) x"
  by (cases "x = l") (simp_all add: file_at_stat stat_put_same stat_put_other)

lemma stores_file_at: "stores t u \<Longrightarrow> file_at t x \<Longrightarrow> file_at u x"
  by (induction rule: stores.induct) (simp_all add: file_at_put)


lemma stores_entry_ok: "stores t u \<Longrightarrow> entry_ok u cwd rf = entry_ok t cwd rf"
  by (simp add: entry_ok_def stores_resolve stores_dir_at split: option.splits)

lemma entry_okD:
  assumes "entry_ok t cwd (root, file)"
  obtains d where "resolve t cwd root = Some d" "dir_at t d" "CHR ''/'' \<notin> set file"
  using assms by (auto simp: entry_ok_def split: option.splits)

lemma dest_put_stores:
  assumes "writable_slot t (d @ [dest_name file])" and "CHR ''/'' \<notin> set file"
  shows "stores t (put (d @ [dest_name file]) (File True c) t)"
  using stores_refl writable_slot_file_slot [OF assms(1)]
  by (rule stores_put) (simp_all add: proper_name_dest [OF assms(2)] dest_name_not_md)

lemma convert_file_stores:
  assumes "entry_ok (filesystem w) (workdir w) (root, file)"
  shows "stores (filesystem w) (filesystem (snd (convert_file exec root file w))) \<and>
         workdir (snd (convert_file exec root file w)) = workdir w"
proof (cases "endswith file ''.md''")
  case False
  then show ?thesis by (simp add: convert_file_skip stores_refl)
next
  case True
  from assms obtain d where r: "resolve (filesystem w) (workdir w) root = Some d"
    and d: "dir_at (filesystem w) d" and ns: "CHR ''/'' \<notin> set file" by (rule entry_okD)
  show ?thesis
    unfolding convert_file_candidate [OF True ns r d]
    by (simp add: Let_def stores_refl dest_put_stores ns split: option.splits)
qed

lemma for_pairs_stores:
  assumes "\<forall>rf \<in> set V. entry_ok (filesystem w) (workdir w) rf"
  shows "stores (filesystem w) (filesystem (snd (for_pairs exec V w))) \<and>
         workdir (snd (for_pairs exec V w)) = workdir w"
  using assms
proof (induction V arbitrary: w)
  case Nil
  show ?case by (simp add: stores_refl)
next
  case (Cons x xs)
  obtain root f where x: "x = (root, f)" by (cases x)
  let ?r = "convert_file exec root f w"
  have ok: "entry_ok (filesystem w) (workdir w) (root, f)" using Cons.prems x by simp
  note st = convert_file_stores [OF ok, of exec]
  show ?case
  proof (cases "fst ?r")
    case (Inl e)
    then have "for_pairs exec (x # xs) w = (Inl e, snd ?r)"
      unfolding x for_pairs_Cons by simp
    with st show ?thesis by simp
  next
    case (Inr u)
    then have eq: "for_pairs exec (x # xs) w = for_pairs exec xs (snd ?r)"
      unfolding x for_pairs_Cons by simp
    have "\<forall>rf \<in> set xs. entry_ok (filesystem (snd ?r)) (workdir (snd ?r)) rf"
      using Cons.prems st stores_entry_ok [of "filesystem w" "filesystem (snd ?r)" "workdir w"]
      by simp
    from Cons.IH [OF this] st show ?thesis
      unfolding eq by (auto intro: stores_trans)
  qed
qed

subsection \<open>The run\<close>

lemma os_walk_cases:
  obtains (walk) l dw es where "resolve t cwd topdir = Some l" "lookup t l = Some (Dir dw es)"
      "os_walk t cwd topdir = walk_dir topdir es"
  | (none) "os_walk t cwd topdir = []"
proof (cases "resolve t cwd topdir")
  case None
  then show ?thesis by (intro none os_walk_unresolved)
next
  case (Some l)
  show ?thesis
  proof (cases "dir_at t l")
    case True
    then obtain dw es where "lookup t l = Some (Dir dw es)" by (auto simp: dir_at_iff)
    with Some show ?thesis by (intro walk os_walk_scanned)
  next
    case False
    with Some show ?thesis by (intro none os_walk_not_dir)
  qed
qed

lemma os_walk_entry_ok:
  assumes "wf_node t"
  shows "\<forall>rf \<in> set (loop_files (os_walk t cwd topdir)). entry_ok t cwd rf"
proof (cases t cwd topdir rule: os_walk_cases)
  case none
  then show ?thesis by (simp add: loop_files_def)
next
  case (walk l dw es)
  show ?thesis
  proof
    fix rf assume "rf \<in> set (loop_files (os_walk t cwd topdir))"
    then have "(fst rf, snd rf) \<in> set (loop_files (walk_dir topdir es))"
      using walk(3) by simp
    from visited_file [OF walk(2) assms walk(1) this]
    show "entry_ok t cwd rf"
      by (auto simp: entry_ok_def proper_name_def)
  qed
qed

text \<open>
  The events of a run: the blocks of the candidates that were converted, and after them,
  when the run raised, what the body did for the next candidate before it raised.
\<close>

lemma convert_file_events:
  assumes md: "endswith file ''.md''" and ok: "entry_ok (filesystem w) (workdir w) (root, file)"
  shows "(case fst (convert_file exec root file w) of
            Inr u \<Rightarrow> trace (snd (convert_file exec root file w)) = trace w @ block (root, file)
          | Inl e \<Rightarrow>
              trace (snd (convert_file exec root file w)) = trace w @ [announce root file] \<or>
              trace (snd (convert_file exec root file w)) =
                trace w @ [announce root file, Open (ipynb_path_of root file),
                           Close (ipynb_path_of root file)])"
proof -
  from ok obtain d where r: "resolve (filesystem w) (workdir w) root = Some d"
    and d: "dir_at (filesystem w) d" and ns: "CHR ''/'' \<notin> set file" by (rule entry_okD)
  show ?thesis
    unfolding convert_file_candidate [OF md ns r d]
    by (simp add: Let_def block_def split: option.splits)
qed

lemma for_pairs_events:
  assumes "\<forall>rf \<in> set C. is_candidate rf \<and> entry_ok (filesystem w) (workdir w) rf"
  shows "(case fst (for_pairs exec C w) of
            Inr u \<Rightarrow> trace (snd (for_pairs exec C w)) = trace w @ concat (map block C)
          | Inl e \<Rightarrow> (\<exists>pre rf post. C = pre @ rf # post \<and>
              (trace (snd (for_pairs exec C w)) =
                 trace w @ concat (map block pre) @ [announce (fst rf) (snd rf)] \<or>
               trace (snd (for_pairs exec C w)) =
                 trace w @ concat (map block pre) @
                   [announce (fst rf) (snd rf), Open (ipynb_path_of (fst rf) (snd rf)),
                    Close (ipynb_path_of (fst rf) (snd rf))])))"
  using assms
proof (induction C arbitrary: w)
  case Nil
  show ?case by simp
next
  case (Cons x xs)
  obtain root f where x: "x = (root, f)" by (cases x)
  let ?r = "convert_file exec root f w"
  have md: "endswith f ''.md''" and ok: "entry_ok (filesystem w) (workdir w) (root, f)"
    using Cons.prems x by (simp_all add: is_candidate_def)
  note ev = convert_file_events [OF md ok, of exec]
  note st = convert_file_stores [OF ok, of exec]
  show ?case
  proof (cases "fst ?r")
    case (Inl e)
    then have eq: "for_pairs exec (x # xs) w = (Inl e, snd ?r)"
      unfolding x for_pairs_Cons by simp
    have "x # xs = [] @ (root, f) # xs" by (simp add: x)
    moreover have "trace (snd ?r) = trace w @ concat (map block []) @ [announce root f] \<or>
        trace (snd ?r) = trace w @ concat (map block []) @
          [announce root f, Open (ipynb_path_of root f), Close (ipynb_path_of root f)]"
      using ev Inl by simp
    ultimately show ?thesis
      unfolding eq by (simp only: fst_conv snd_conv sum.case) (metis fst_conv snd_conv)
  next
    case (Inr u)
    then have eq: "for_pairs exec (x # xs) w = for_pairs exec xs (snd ?r)"
      unfolding x for_pairs_Cons by simp
    have tr: "trace (snd ?r) = trace w @ block x" using ev Inr by (simp add: x)
    have "\<forall>rf \<in> set xs. is_candidate rf \<and> entry_ok (filesystem (snd ?r)) (workdir (snd ?r)) rf"
      using Cons.prems st stores_entry_ok [of "filesystem w" "filesystem (snd ?r)" "workdir w"]
      by simp
    note ih = Cons.IH [OF this]
    show ?thesis
    proof (cases "fst (for_pairs exec xs (snd ?r))")
      case (Inr u')
      with ih show ?thesis unfolding eq by (simp add: tr)
    next
      case (Inl e)
      with ih obtain pre rf post where xs: "xs = pre @ rf # post"
        and t: "trace (snd (for_pairs exec xs (snd ?r))) =
                 trace (snd ?r) @ concat (map block pre) @ [announce (fst rf) (snd rf)] \<or>
               trace (snd (for_pairs exec xs (snd ?r))) =
                 trace (snd ?r) @ concat (map block pre) @
                   [announce (fst rf) (snd rf), Open (ipynb_path_of (fst rf) (snd rf)),
                    Close (ipynb_path_of (fst rf) (snd rf))]"
        by auto
      have "x # xs = (x # pre) @ rf # post" using xs by simp
      moreover have "trace (snd (for_pairs exec xs (snd ?r))) =
                 trace w @ concat (map block (x # pre)) @ [announce (fst rf) (snd rf)] \<or>
               trace (snd (for_pairs exec xs (snd ?r))) =
                 trace w @ concat (map block (x # pre)) @
                   [announce (fst rf) (snd rf), Open (ipynb_path_of (fst rf) (snd rf)),
                    Close (ipynb_path_of (fst rf) (snd rf))]"
        using t by (simp add: tr)
      ultimately show ?thesis
        unfolding eq using Inl by (simp only: sum.case) blast
    qed
  qed
qed

lemma convert_file_dest:
  assumes md: "endswith file ''.md''" and ok: "entry_ok (filesystem w) (workdir w) (root, file)"
    and r: "resolve (filesystem w) (workdir w) root = Some d"
    and run: "fst (convert_file exec root file w) = Inr u"
  shows "\<exists>prog. exec ''notedown'' = Some prog \<and> writable_slot (filesystem w) (d @ [dest_name file]) \<and>
           stat (filesystem (snd (convert_file exec root file w))) (d @ [dest_name file]) =
             Some (Reg True (out (prog [''notedown'', join root file] (workdir w)
                (put (d @ [dest_name file]) (File True []) (filesystem w)))))"
proof -
  from ok r have d: "dir_at (filesystem w) d" and ns: "CHR ''/'' \<notin> set file"
    by (auto elim: entry_okD)
  note cf = convert_file_candidate [OF md ns r d, of exec]
  from run have ws: "writable_slot (filesystem w) (d @ [dest_name file])"
    unfolding cf by (simp add: Let_def split: if_splits)
  from run ws obtain prog where p: "exec ''notedown'' = Some prog"
    unfolding cf by (cases "exec ''notedown''") (simp_all add: Let_def)
  show ?thesis
    unfolding cf using ws p
    by (simp add: Let_def stat_put_same writable_slot_file_slot)
qed


lemma candidates_entry_ok:
  assumes "wf_node t"
  shows "\<forall>rf \<in> set (filter is_candidate (loop_files (os_walk t cwd topdir))).
           is_candidate rf \<and> entry_ok t cwd rf"
  using os_walk_entry_ok [OF assms, of cwd topdir] by simp


lemma py_open_fail: "py_open p w = (Inl e, w') \<Longrightarrow> w' = w"
  by (auto simp: py_open_def split: option.splits node.splits if_splits)

lemma py_open_trace: "\<exists>rest. trace (snd (py_open p w)) = trace w @ rest"
  by (auto simp: py_open_def split: option.splits node.splits)

lemma subprocess_run_trace: "\<exists>rest. trace (snd (subprocess_run exec args outfile w)) = trace w @ rest"
  by (auto simp: subprocess_run_def Let_def split: list.splits option.splits)

lemma convert_file_announces:
  assumes "endswith file ''.md''"
  shows "\<exists>rest. trace (snd (convert_file exec root file w)) = trace w @ announce root file # rest"
proof -
  let ?p = "ipynb_path_of root file"
  let ?w1 = "print (''Converting: '' @ join root file @ '' -> '' @ ?p) w"
  have t1: "trace ?w1 = trace w @ [announce root file]"
    by (simp add: print_def announce_def)
  obtain r1 w2 where o: "py_open ?p ?w1 = (r1, w2)" by (cases "py_open ?p ?w1")
  from py_open_trace [of ?p ?w1] o obtain rest2 where t2: "trace w2 = trace ?w1 @ rest2" by auto
  show ?thesis
  proof (cases r1)
    case (Inl e)
    then have "convert_file exec root file w = (Inl e, w2)"
      using assms o by (simp add: convert_file_def ipynb_path_of_def Let_def)
    then show ?thesis using t1 t2 by simp
  next
    case (Inr outfile)
    obtain r3 w3 where s: "subprocess_run exec [''notedown'', join root file] outfile w2 = (r3, w3)"
      by (cases "subprocess_run exec [''notedown'', join root file] outfile w2")
    from subprocess_run_trace [of exec "[''notedown'', join root file]" outfile w2] s
    obtain rest3 where t3: "trace w3 = trace w2 @ rest3" by auto
    have "trace (snd (convert_file exec root file w)) = trace w3 @ [Close (fst outfile)]"
      using assms o s Inr
      by (simp add: convert_file_def ipynb_path_of_def Let_def py_close_def split: sum.splits)
    then show ?thesis using t1 t2 t3 by simp
  qed
qed

subsection \<open>Each file once\<close>


lemma loop_files_Cons:
  "loop_files ((root, ds, fs) # tr) = map (Pair root) fs @ loop_files tr"
  by (simp add: loop_files_def)








subsection \<open>The walk of a file system in which a file has been stored\<close>

lemma loop_files_append: "loop_files (a @ b) = loop_files a @ loop_files b"
  by (simp add: loop_files_def)

lemma cands_append: "cands (a @ b) = cands a @ cands b"
  by (simp add: cands_def loop_files_append)

lemma walk_subdirs_Cons:
  "walk_subdirs topdir ((n, u) # es) = walk_node (join topdir n) u @ walk_subdirs topdir es"
  by (cases u) simp_all

lemma walk_subdirs_append:
  "walk_subdirs topdir (es @ es') = walk_subdirs topdir es @ walk_subdirs topdir es'"
proof (induction es)
  case Nil
  show ?case by simp
next
  case (Cons e es)
  obtain n u where e: "e = (n, u)" by (cases e)
  show ?case unfolding e by (simp add: walk_subdirs_Cons Cons.IH del: walk_subdirs.simps)
qed

lemma cands_walk_dir:
  "cands (walk_dir topdir es) =
     filter is_candidate (map (Pair topdir) (nondirs_of es)) @ cands (walk_subdirs topdir es)"
  by (simp add: cands_def walk_dir.simps loop_files_Cons)

lemma listing_new_file:
  assumes "\<not> endswith n ''.md''"
  shows "cands (walk_dir topdir (es @ [(n, File b c)])) = cands (walk_dir topdir es)"
  using assms
  by (simp add: cands_walk_dir walk_subdirs_append nondirs_of_def is_candidate_def)

lemma listing_update:
  assumes "map_of es n = Some u" and "is_dir u' = is_dir u"
    and "\<And>p. cands (walk_node p u') = cands (walk_node p u)"
  shows "dirs_of (AList.update n u' es) = dirs_of es \<and>
         nondirs_of (AList.update n u' es) = nondirs_of es \<and>
         cands (walk_subdirs topdir (AList.update n u' es)) = cands (walk_subdirs topdir es)"
  using assms(1)
proof (induction es)
  case Nil
  then show ?case by simp
next
  case (Cons e es)
  obtain m x where e: "e = (m, x)" by (cases e)
  show ?case
  proof (cases "m = n")
    case True
    with Cons.prems e have "x = u" by simp
    with True e assms(2,3) show ?thesis
      by (simp add: dirs_of_def nondirs_of_def walk_subdirs_Cons cands_append
          del: walk_subdirs.simps)
  next
    case False
    with Cons.prems e have "map_of es n = Some u" by simp
    from Cons.IH [OF this] False e show ?thesis
      by (simp add: dirs_of_def nondirs_of_def walk_subdirs_Cons cands_append
          del: walk_subdirs.simps)
  qed
qed

lemma is_dir_put: "ns \<noteq> [] \<Longrightarrow> is_dir (put ns v u) = is_dir u"
  by (cases ns; cases u) (simp_all split: option.splits)

lemma walk_node_put:
  "file_slot t l \<Longrightarrow> l \<noteq> [] \<Longrightarrow> \<not> endswith (last l) ''.md'' \<Longrightarrow>
   cands (walk_node topdir (put l (File b c) t)) = cands (walk_node topdir t)"
proof (induction l arbitrary: t topdir)
  case Nil
  then show ?case by simp
next
  case (Cons m ms)
  show ?case
  proof (cases t)
    case (File fw c0)
    with Cons.prems show ?thesis by (simp add: file_slot_File)
  next
    case (Dir dw es)
    show ?thesis
    proof (cases "map_of es m")
      case None
      with Cons.prems Dir have ms: "ms = []" by (simp add: file_slot_Dir_None)
      with Cons.prems(3) have "\<not> endswith m ''.md''" by simp
      from listing_new_file [OF this] None Dir ms show ?thesis
        by (simp add: update_new)
    next
      case (Some u)
      with Cons.prems Dir have fs: "file_slot u ms" by (simp add: file_slot_Dir_Some)
      let ?u' = "put ms (File b c) u"
      have d: "is_dir ?u' = is_dir u"
      proof (cases "ms = []")
        case True
        with fs show ?thesis by (auto simp: file_slot_Nil)
      next
        case False
        then show ?thesis by (rule is_dir_put)
      qed
      have w: "cands (walk_node p ?u') = cands (walk_node p u)" for p
      proof (cases "ms = []")
        case True
        with fs show ?thesis by (auto simp: file_slot_Nil)
      next
        case False
        moreover from False Cons.prems(3) have "\<not> endswith (last ms) ''.md''" by simp
        ultimately show ?thesis by (intro Cons.IH fs)
      qed
      from listing_update [OF Some d w, of topdir] Some Dir show ?thesis
        by (simp add: cands_walk_dir)
    qed
  qed
qed

lemma walk_at_put:
  "file_slot t l \<Longrightarrow> l \<noteq> [] \<Longrightarrow> \<not> endswith (last l) ''.md'' \<Longrightarrow>
   cands (case lookup (put l (File b c) t) x of Some u \<Rightarrow> walk_node topdir u | None \<Rightarrow> []) =
   cands (case lookup t x of Some u \<Rightarrow> walk_node topdir u | None \<Rightarrow> [])"
proof (induction x arbitrary: t l)
  case Nil
  then show ?case by (simp add: walk_node_put)
next
  case (Cons n ns)
  from Cons.prems(2) obtain m ms where l: "l = m # ms" by (cases l) auto
  show ?case
  proof (cases t)
    case (File fw c0)
    with Cons.prems l show ?thesis by (simp add: file_slot_File)
  next
    case (Dir dw es)
    show ?thesis
    proof (cases "map_of es m")
      case None
      with Cons.prems Dir l have ms: "ms = []" by (simp add: file_slot_Dir_None)
      show ?thesis
      proof (cases "n = m")
        case True
        with None Dir l ms show ?thesis
          by (cases ns) (simp_all add: update_conv' cands_def loop_files_def)
      next
        case False
        with None Dir l ms show ?thesis by (simp add: update_conv')
      qed
    next
      case (Some u)
      with Cons.prems Dir l have fs: "file_slot u ms" by (simp add: file_slot_Dir_Some)
      show ?thesis
      proof (cases "n = m")
        case False
        with Some Dir l show ?thesis by (simp add: update_conv')
      next
        case True
        show ?thesis
        proof (cases "ms = []")
          case ms: True
          with fs obtain fw c0 where "u = File fw c0" by (auto simp: file_slot_Nil)
          with True Some Dir l ms show ?thesis
            by (cases ns) (simp_all add: update_conv' cands_def loop_files_def)
        next
          case False
          moreover from False Cons.prems(3) l have "\<not> endswith (last ms) ''.md''" by simp
          ultimately have "cands (case lookup (put ms (File b c) u) ns of
              Some u \<Rightarrow> walk_node topdir u | None \<Rightarrow> []) =
             cands (case lookup u ns of Some u \<Rightarrow> walk_node topdir u | None \<Rightarrow> [])"
            by (intro Cons.IH fs)
          with True Some Dir l show ?thesis by (simp add: update_conv')
        qed
      qed
    qed
  qed
qed

lemma os_walk_lookup:
  "os_walk t cwd topdir =
     (case resolve t cwd topdir of None \<Rightarrow> []
      | Some l \<Rightarrow> (case lookup t l of Some u \<Rightarrow> walk_node topdir u | None \<Rightarrow> []))"
  by (simp add: os_walk_def scandir_def split: option.splits node.splits)

lemma stores_candidates:
  "stores t u \<Longrightarrow> cands (os_walk u cwd topdir) = cands (os_walk t cwd topdir)"
proof (induction rule: stores.induct)
  case (stores_refl t)
  show ?case ..
next
  case (stores_put t u l c)
  have "cands (os_walk (put l (File True c) u) cwd topdir) = cands (os_walk u cwd topdir)"
    unfolding os_walk_lookup resolve_put [OF stores_put.hyps(2)]
    using walk_at_put [OF stores_put.hyps(2,3,5)]
    by (simp add: cands_def loop_files_def split: option.splits)
  with stores_put.IH show ?case by simp
qed

subsection \<open>Running again\<close>






subsection \<open>The contents of files do not steer the run\<close>

lemma is_dir_erase: "is_dir (erase u) = is_dir u"
  by (cases u) simp_all

lemma map_of_erase:
  "map_of (map (\<lambda>e. (fst e, erase (snd e))) es) n = map_option erase (map_of es n)"
  by (induction es) auto

lemma lookup_erase: "lookup (erase t) l = map_option erase (lookup t l)"
proof (induction l arbitrary: t)
  case Nil
  show ?case by simp
next
  case (Cons n ns)
  show ?case
    by (cases t) (simp_all add: map_of_erase Cons.IH split: option.splits)
qed

lemma dir_at_erase: "dir_at (erase t) l = dir_at t l"
proof -
  have "(\<exists>dw es. erase u = Dir dw es) \<longleftrightarrow> (\<exists>dw es. u = Dir dw es)" for u
    by (cases u) simp_all
  then show ?thesis
    by (cases "lookup t l") (simp_all add: dir_at_iff lookup_erase)
qed

lemma resolve_erase: "resolve (erase t) cwd p = resolve t cwd p"
  by (rule resolve_cong) (rule dir_at_erase)

lemma writable_slot_erase: "writable_slot (erase t) l = writable_slot t l"
proof -
  have a: "(case erase u of Dir dw es \<Rightarrow> dw | File fw c \<Rightarrow> False) =
           (case u of Dir dw es \<Rightarrow> dw | File fw c \<Rightarrow> False)" for u
    by (cases u) simp_all
  have b: "(case erase u of Dir dw es \<Rightarrow> False | File fw c \<Rightarrow> fw) =
           (case u of Dir dw es \<Rightarrow> False | File fw c \<Rightarrow> fw)" for u
    by (cases u) simp_all
  show ?thesis
    unfolding writable_slot_def lookup_erase
    by (cases "lookup t l"; cases "lookup t (butlast l)")
       (simp_all add: a b split: node.splits)
qed

lemma open_error_erase: "open_error (erase t) l p = open_error t l p"
  unfolding open_error_def lookup_erase
  by (cases "lookup t l"; cases "lookup t (butlast l)")
     (auto split: node.splits)

lemma update_erase:
  "AList.update n (erase v) (map (\<lambda>e. (fst e, erase (snd e))) es) =
   map (\<lambda>e. (fst e, erase (snd e))) (AList.update n v es)"
  by (induction es) auto

lemma erase_put: "erase (put l v t) = put l (erase v) (erase t)"
proof (induction l arbitrary: t)
  case Nil
  show ?case by simp
next
  case (Cons n ns)
  show ?case
  proof (cases t)
    case (File fw c)
    then show ?thesis by simp
  next
    case (Dir dw es)
    show ?thesis
    proof (cases "map_of es n")
      case None
      with Dir show ?thesis by (simp add: map_of_erase update_erase)
    next
      case (Some u)
      with Dir show ?thesis by (simp add: map_of_erase update_erase [symmetric] Cons.IH)
    qed
  qed
qed

lemma listing_erase:
  "dirs_of (map (\<lambda>e. (fst e, erase (snd e))) es) = dirs_of es"
  "nondirs_of (map (\<lambda>e. (fst e, erase (snd e))) es) = nondirs_of es"
  by (induction es) (simp_all add: dirs_of_def nondirs_of_def is_dir_erase)

lemma walk_erase:
  "walk_dir topdir (map (\<lambda>e. (fst e, erase (snd e))) es) = walk_dir topdir es"
  "walk_subdirs topdir (map (\<lambda>e. (fst e, erase (snd e))) es') = walk_subdirs topdir es'"
proof (induction topdir es and topdir es' rule: walk_dir_walk_subdirs.induct)
  case (1 topdir es)
  then show ?case by (simp add: walk_dir.simps listing_erase)
next
  case (2 topdir)
  show ?case by simp
next
  case (3 topdir dirname w c es)
  then show ?case by simp
next
  case (4 topdir dirname w sub es)
  then show ?case by simp
qed

lemma os_walk_erase: "os_walk (erase t) cwd topdir = os_walk t cwd topdir"
proof -
  have "walk_node topdir (erase u) = walk_node topdir u" for u
    by (cases u) (simp_all add: walk_erase)
  then show ?thesis
    unfolding os_walk_lookup resolve_erase lookup_erase
    by (simp split: option.splits)
qed

lemma entry_ok_erase: "entry_ok (erase t) cwd rf = entry_ok t cwd rf"
  by (simp add: entry_ok_def resolve_erase dir_at_erase split: option.splits)


lemma same_shape_refl: "same_shape w w"
  by (simp add: same_shape_def)

lemma same_shape_resolve:
  assumes "same_shape w w'"
  shows "resolve (filesystem w') (workdir w') p = resolve (filesystem w) (workdir w) p"
proof -
  have "resolve (erase (filesystem w')) (workdir w') p = resolve (erase (filesystem w)) (workdir w) p"
    using assms by (simp add: same_shape_def)
  then show ?thesis by (simp only: resolve_erase)
qed

lemma same_shape_entry_ok:
  assumes "same_shape w w'"
  shows "entry_ok (filesystem w') (workdir w') rf = entry_ok (filesystem w) (workdir w) rf"
proof -
  have "entry_ok (erase (filesystem w')) (workdir w') rf = entry_ok (erase (filesystem w)) (workdir w) rf"
    using assms by (simp add: same_shape_def)
  then show ?thesis by (simp only: entry_ok_erase)
qed

lemma same_shape_writable:
  assumes "same_shape w w'"
  shows "writable_slot (filesystem w') l = writable_slot (filesystem w) l"
    and "open_error (filesystem w') l p = open_error (filesystem w) l p"
proof -
  have e: "erase (filesystem w') = erase (filesystem w)" using assms by (simp add: same_shape_def)
  show "writable_slot (filesystem w') l = writable_slot (filesystem w) l"
    using writable_slot_erase [of "filesystem w'" l] writable_slot_erase [of "filesystem w" l]
    by (simp add: e)
  show "open_error (filesystem w') l p = open_error (filesystem w) l p"
    using open_error_erase [of "filesystem w'" l p] open_error_erase [of "filesystem w" l p]
    by (simp add: e)
qed

lemma same_shape_os_walk:
  assumes "same_shape w w'"
  shows "os_walk (filesystem w') (workdir w') p = os_walk (filesystem w) (workdir w) p"
proof -
  have "os_walk (erase (filesystem w')) (workdir w') p = os_walk (erase (filesystem w)) (workdir w) p"
    using assms by (simp add: same_shape_def)
  then show ?thesis by (simp only: os_walk_erase)
qed

lemma convert_file_tool:
  assumes md: "endswith file ''.md''" and ok: "entry_ok (filesystem w) (workdir w) (root, file)"
    and r: "resolve (filesystem w) (workdir w) root = Some d"
    and p: "exec ''notedown'' = Some prog"
  shows "convert_file exec root file w =
    (if writable_slot (filesystem w) (d @ [dest_name file]) then
       (Inr (),
        w\<lparr>filesystem :=
            put (d @ [dest_name file])
              (File True (out (prog [''notedown'', join root file] (workdir w)
                 (put (d @ [dest_name file]) (File True []) (filesystem w)))))
              (filesystem w),
          trace := trace w @ block (root, file)\<rparr>)
     else (Inl (open_error (filesystem w) (d @ [dest_name file]) (ipynb_path_of root file)),
           w\<lparr>trace := trace w @ [announce root file]\<rparr>))"
proof -
  from ok r have d: "dir_at (filesystem w) d" and ns: "CHR ''/'' \<notin> set file"
    by (auto elim: entry_okD)
  show ?thesis
    unfolding convert_file_candidate [OF md ns r d]
    by (simp add: Let_def p block_def)
qed

lemma convert_file_same_shape:
  assumes ss: "same_shape w w'" and ok: "entry_ok (filesystem w) (workdir w) (root, file)"
    and p: "exec ''notedown'' = Some prog" and p': "exec' ''notedown'' = Some prog'"
  shows "fst (convert_file exec root file w) = fst (convert_file exec' root file w') \<and>
         same_shape (snd (convert_file exec root file w)) (snd (convert_file exec' root file w'))"
proof (cases "endswith file ''.md''")
  case False
  then show ?thesis using ss by (simp add: convert_file_skip)
next
  case True
  from ok obtain d where r: "resolve (filesystem w) (workdir w) root = Some d"
    by (rule entry_okD)
  have ok': "entry_ok (filesystem w') (workdir w') (root, file)"
    using ok by (simp add: same_shape_entry_ok [OF ss])
  have r': "resolve (filesystem w') (workdir w') root = Some d"
    using r by (simp add: same_shape_resolve [OF ss])
  note a = convert_file_tool [OF True ok r, where exec = exec, OF p]
  note b = convert_file_tool [OF True ok' r', where exec = exec', OF p']
  show ?thesis
    unfolding a b same_shape_writable [OF ss]
    using ss by (simp add: same_shape_def erase_put)
qed

lemma for_pairs_same_shape:
  assumes "same_shape w w'" and "\<forall>rf \<in> set V. entry_ok (filesystem w) (workdir w) rf"
    and p: "exec ''notedown'' = Some prog" and p': "exec' ''notedown'' = Some prog'"
  shows "fst (for_pairs exec V w) = fst (for_pairs exec' V w') \<and>
         same_shape (snd (for_pairs exec V w)) (snd (for_pairs exec' V w'))"
  using assms(1,2)
proof (induction V arbitrary: w w')
  case Nil
  then show ?case by simp
next
  case (Cons x xs)
  obtain root f where x: "x = (root, f)" by (cases x)
  let ?r = "convert_file exec root f w" and ?r' = "convert_file exec' root f w'"
  have ok: "entry_ok (filesystem w) (workdir w) (root, f)" using Cons.prems(2) x by simp
  note c = convert_file_same_shape [OF Cons.prems(1) ok, where exec = exec and exec' = exec', OF p p']
  note st = convert_file_stores [OF ok, of exec]
  show ?case
  proof (cases "fst ?r")
    case (Inl e)
    moreover from Inl c have "fst ?r' = Inl e" by simp
    ultimately show ?thesis
      unfolding x for_pairs_Cons using c by simp
  next
    case (Inr u)
    moreover from Inr c have "fst ?r' = Inr u" by simp
    moreover have "\<forall>rf \<in> set xs. entry_ok (filesystem (snd ?r)) (workdir (snd ?r)) rf"
      using Cons.prems(2) st stores_entry_ok [of "filesystem w" "filesystem (snd ?r)" "workdir w"]
      by simp
    note Cons.IH [OF c [THEN conjunct2] this]
    ultimately show ?thesis
      unfolding x for_pairs_Cons by simp
  qed
qed

lemma subprocess_run_same_out:
  assumes "exec ''notedown'' = Some prog" and "exec' ''notedown'' = Some prog'"
    and "\<forall>args cwd t. out (prog args cwd t) = out (prog' args cwd t)"
  shows "snd (subprocess_run exec (''notedown'' # args) outfile w) =
           snd (subprocess_run exec' (''notedown'' # args) outfile w) \<and>
         isl (fst (subprocess_run exec (''notedown'' # args) outfile w)) =
           isl (fst (subprocess_run exec' (''notedown'' # args) outfile w))"
  using assms by (simp add: subprocess_run_def Let_def)

lemma convert_file_same_out:
  assumes "exec ''notedown'' = Some prog" and "exec' ''notedown'' = Some prog'"
    and "\<forall>args cwd t. out (prog args cwd t) = out (prog' args cwd t)"
  shows "convert_file exec root file w = convert_file exec' root file w"
  using assms
  by (simp add: convert_file_def subprocess_run_def Let_def split: prod.splits sum.splits)

lemma for_pairs_same_out:
  assumes "exec ''notedown'' = Some prog" and "exec' ''notedown'' = Some prog'"
    and "\<forall>args cwd t. out (prog args cwd t) = out (prog' args cwd t)"
  shows "for_pairs exec V w = for_pairs exec' V w"
proof (induction V arbitrary: w)
  case Nil
  show ?case by simp
next
  case (Cons x xs)
  obtain root f where x: "x = (root, f)" by (cases x)
  show ?case
    unfolding x for_pairs_Cons
      convert_file_same_out [where exec = exec and exec' = exec', OF assms]
    by (simp add: Cons.IH split: sum.splits)
qed

lemma for_pairs_tool_events:
  assumes "\<forall>rf \<in> set C. is_candidate rf \<and> entry_ok (filesystem w) (workdir w) rf"
    and p: "exec ''notedown'' = Some prog"
  shows "(case fst (for_pairs exec C w) of
            Inr u \<Rightarrow> trace (snd (for_pairs exec C w)) = trace w @ concat (map block C)
          | Inl e \<Rightarrow> (\<exists>pre rf post. C = pre @ rf # post \<and>
              trace (snd (for_pairs exec C w)) =
                 trace w @ concat (map block pre) @ [announce (fst rf) (snd rf)]))"
  using assms(1)
proof (induction C arbitrary: w)
  case Nil
  show ?case by simp
next
  case (Cons x xs)
  obtain root f where x: "x = (root, f)" by (cases x)
  let ?r = "convert_file exec root f w"
  have md: "endswith f ''.md''" and ok: "entry_ok (filesystem w) (workdir w) (root, f)"
    using Cons.prems x by (simp_all add: is_candidate_def)
  from ok obtain d where r: "resolve (filesystem w) (workdir w) root = Some d"
    by (rule entry_okD)
  note cf = convert_file_tool [OF md ok r, where exec = exec, OF p]
  note st = convert_file_stores [OF ok, of exec]
  show ?case
  proof (cases "fst ?r")
    case (Inl e)
    then have eq: "for_pairs exec (x # xs) w = (Inl e, snd ?r)"
      unfolding x for_pairs_Cons by simp
    from Inl have "trace (snd ?r) = trace w @ concat (map block []) @ [announce root f]"
      unfolding cf by (simp split: if_splits)
    moreover have "x # xs = [] @ (root, f) # xs" by (simp add: x)
    ultimately show ?thesis
      unfolding eq by (simp only: fst_conv snd_conv sum.case) (metis fst_conv snd_conv)
  next
    case (Inr u)
    then have eq: "for_pairs exec (x # xs) w = for_pairs exec xs (snd ?r)"
      unfolding x for_pairs_Cons by simp
    from Inr have tr: "trace (snd ?r) = trace w @ block x"
      unfolding cf by (simp add: x split: if_splits)
    have "\<forall>rf \<in> set xs. is_candidate rf \<and> entry_ok (filesystem (snd ?r)) (workdir (snd ?r)) rf"
      using Cons.prems st stores_entry_ok [of "filesystem w" "filesystem (snd ?r)" "workdir w"]
      by simp
    note ih = Cons.IH [OF this]
    show ?thesis
    proof (cases "fst (for_pairs exec xs (snd ?r))")
      case (Inr u')
      with ih show ?thesis unfolding eq by (simp add: tr)
    next
      case (Inl e)
      with ih obtain pre rf post where xs: "xs = pre @ rf # post"
        and t: "trace (snd (for_pairs exec xs (snd ?r))) =
                 trace (snd ?r) @ concat (map block pre) @ [announce (fst rf) (snd rf)]"
        by auto
      have "x # xs = (x # pre) @ rf # post" using xs by simp
      moreover have "trace (snd (for_pairs exec xs (snd ?r))) =
                 trace w @ concat (map block (x # pre)) @ [announce (fst rf) (snd rf)]"
        using t by (simp add: tr)
      ultimately show ?thesis
        unfolding eq using Inl by (simp only: sum.case) blast
    qed
  qed
qed

subsection \<open>The walk as a generator\<close>

lemma for_pairs_cands: "for_pairs exec (loop_files triples) w = for_pairs exec (cands triples) w"
  by (simp add: cands_def for_pairs_filter)

lemma convert_md_to_ipynb_cands:
  "convert_md_to_ipynb exec p w = for_pairs exec (cands (os_walk (filesystem w) (workdir w) p)) w"
  by (simp add: convert_md_to_ipynb_pairs cands_def)

lemma walk_subdirs_entry_ok:
  assumes wf: "wf_node t" and r: "resolve t cwd topdir = Some l"
    and lk: "lookup t l = Some (Dir dw es)"
    and rf: "rf \<in> set (loop_files (walk_subdirs topdir es))"
  shows "entry_ok t cwd rf"
proof -
  have "set (loop_files (walk_subdirs topdir es)) \<subseteq> set (loop_files (walk_dir topdir es))"
    by (auto simp: walk_dir.simps loop_files_def)
  with rf have "rf \<in> set (loop_files (os_walk t cwd topdir))"
    by (auto simp: os_walk_scanned [OF r lk])
  with os_walk_entry_ok [OF wf, of cwd topdir] show ?thesis by blast
qed

lemma for_subdirs_walk:
  assumes wf: "wf_node t" and r: "resolve t cwd topdir = Some l"
    and lk: "lookup t l = Some (Dir dw es)"
  shows "set es' \<subseteq> set es \<Longrightarrow> stores t (filesystem w) \<Longrightarrow> workdir w = cwd \<Longrightarrow>
    for_pairs exec (loop_files (walk_subdirs topdir es')) w = for_subdirs exec topdir (dirs_of es') w"
proof (induction es' arbitrary: w)
  case Nil
  show ?case by (simp add: loop_files_def dirs_of_def)
next
  case (Cons e es')
  obtain n u where e: "e = (n, u)" by (cases e)
  have sub: "set es' \<subseteq> set es" using Cons.prems(1) by simp
  show ?case
  proof (cases u)
    case (File fw c)
    with Cons.IH [OF sub Cons.prems(2,3)] e show ?thesis by (simp add: dirs_of_def)
  next
    case (Dir dw' sub')
    have wfd: "wf_node (Dir dw es)" using wf lk by (rule wf_lookup)
    have mem: "(n, Dir dw' sub') \<in> set es" using Cons.prems(1) e Dir by simp
    with wfd have pn: "proper_name n" and dist: "distinct (map fst es)" by fastforce+
    have sc: "scandir t cwd (join topdir n) = Inr sub'"
      using r lk dist mem pn by (rule scandir_join)
    have ow: "os_walk t cwd (join topdir n) = walk_dir (join topdir n) sub'"
      by (simp add: os_walk_def sc)
    let ?V = "loop_files (walk_dir (join topdir n) sub')"
    have conv: "convert_md_to_ipynb exec (join topdir n) w = for_pairs exec ?V w"
      unfolding convert_md_to_ipynb_cands for_pairs_cands Cons.prems(3)
      using stores_candidates [OF Cons.prems(2), of cwd "join topdir n"] by (simp add: ow)
    have ok: "\<forall>rf \<in> set ?V. entry_ok (filesystem w) (workdir w) rf"
      using os_walk_entry_ok [OF wf, of cwd "join topdir n"]
      by (simp add: ow Cons.prems(3) stores_entry_ok [OF Cons.prems(2)])
    note st = for_pairs_stores [OF ok, of exec]
    have st': "stores t (filesystem (snd (for_pairs exec ?V w)))"
      using st Cons.prems(2) by (blast intro: stores_trans)
    have wd': "workdir (snd (for_pairs exec ?V w)) = cwd" using st Cons.prems(3) by simp
    note ih = Cons.IH [OF sub st' wd']
    have "for_pairs exec (loop_files (walk_subdirs topdir (e # es'))) w =
          (case for_pairs exec ?V w of (Inl e, w') \<Rightarrow> (Inl e, w')
           | (Inr u, w') \<Rightarrow> for_pairs exec (loop_files (walk_subdirs topdir es')) w')"
      by (simp add: e Dir loop_files_append for_pairs_append)
    also have "\<dots> = for_subdirs exec topdir (dirs_of (e # es')) w"
      using ih by (cases "for_pairs exec ?V w") (simp add: e Dir dirs_of_def conv split: sum.splits)
    finally show ?thesis .
  qed
qed

text \<open>
  The run unfolds the way the generator does: list the top directory now, run the body for
  its files, then do the same from each subdirectory in turn, with the file system as
  it is by then.
\<close>

lemma convert_md_to_ipynb_unfold:
  assumes wf: "wf_node (filesystem w)"
  shows "convert_md_to_ipynb exec topdir w =
     (case scandir (filesystem w) (workdir w) topdir of
        Inl e \<Rightarrow> (Inr (), w)
      | Inr es \<Rightarrow>
          (case for_files exec topdir (nondirs_of es) w of
             (Inl e, w') \<Rightarrow> (Inl e, w')
           | (Inr u, w') \<Rightarrow> for_subdirs exec topdir (dirs_of es) w'))"
proof (cases "scandir (filesystem w) (workdir w) topdir")
  case (Inl e)
  then show ?thesis by (simp add: convert_md_to_ipynb_def os_walk_def)
next
  case (Inr es)
  then obtain l dw where r: "resolve (filesystem w) (workdir w) topdir = Some l"
    and lk: "lookup (filesystem w) l = Some (Dir dw es)"
    by (auto simp: scandir_def split: option.splits node.splits)
  let ?F = "for_files exec topdir (nondirs_of es) w"
  have ow: "os_walk (filesystem w) (workdir w) topdir = walk_dir topdir es"
    by (simp add: os_walk_def Inr)
  have c: "convert_md_to_ipynb exec topdir w =
      (case ?F of (Inl e, w') \<Rightarrow> (Inl e, w')
       | (Inr u, w') \<Rightarrow> for_pairs exec (loop_files (walk_subdirs topdir es)) w')"
    by (simp add: convert_md_to_ipynb_def ow walk_dir.simps for_walk_pairs loop_files_Cons
        for_pairs_append for_files_pairs)
  have ok: "\<forall>rf \<in> set (map (Pair topdir) (nondirs_of es)). entry_ok (filesystem w) (workdir w) rf"
    using os_walk_entry_ok [OF wf, of "workdir w" topdir]
    by (simp add: ow walk_dir.simps loop_files_Cons)
  from for_pairs_stores [OF ok, of exec]
  have st: "stores (filesystem w) (filesystem (snd ?F))" and wd: "workdir (snd ?F) = workdir w"
    by (simp_all add: for_files_pairs)
  have "for_pairs exec (loop_files (walk_subdirs topdir es)) (snd ?F) =
        for_subdirs exec topdir (dirs_of es) (snd ?F)"
    using wf r lk subset_refl st wd by (rule for_subdirs_walk)
  then show ?thesis
    unfolding c Inr by (cases ?F) (simp split: sum.splits)
qed

section \<open>The claims\<close>




text \<open>
  C2. The body leaves the world as it is for a file whose name does not end in the
  literal suffix \<^verbatim>\<open>.md\<close>: nothing is printed, no file is opened or written, no process
  is run. For a file whose name ends in \<^verbatim>\<open>.md\<close> it starts by announcing the conversion.
  So the whole run is the run of the body over the entries whose names end in \<^verbatim>\<open>.md\<close>.
  The test is case-sensitive: \<^verbatim>\<open>README.MD\<close> and \<^verbatim>\<open>image.png\<close> are no candidates.
\<close>

theorem candidate_filter:
  "(\<not> endswith file ''.md'' \<longrightarrow> convert_file exec root file w = (Inr (), w)) \<and>
   (endswith file ''.md'' \<longrightarrow>
      (\<exists>rest. trace (snd (convert_file exec root file w)) = trace w @ announce root file # rest)) \<and>
   convert_md_to_ipynb exec folder_path w =
     for_pairs exec
       (filter (\<lambda>rf. endswith (snd rf) ''.md'')
          (loop_files (os_walk (filesystem w) (workdir w) folder_path))) w \<and>
   \<not> endswith ''README.MD'' ''.md'' \<and> \<not> endswith ''image.png'' ''.md''"
proof -
  have "is_candidate = (\<lambda>rf. endswith (snd rf) ''.md'')"
    by (simp add: is_candidate_def fun_eq_iff)
  then have "convert_md_to_ipynb exec folder_path w =
     for_pairs exec
       (filter (\<lambda>rf. endswith (snd rf) ''.md'')
          (loop_files (os_walk (filesystem w) (workdir w) folder_path))) w"
    using convert_md_to_ipynb_pairs [of exec folder_path w] by simp
  moreover have "\<not> endswith ''README.MD'' ''.md''" "\<not> endswith ''image.png'' ''.md''"
    by (simp_all add: endswith_def)
  ultimately show ?thesis
    using convert_file_skip [of "file" exec root w] convert_file_announces [of "file" exec root w]
    by blast
qed

theorem candidate_filter_witness:
  "\<not> endswith ''image.png'' ''.md'' \<and>
   convert_file demo_tool ''.'' ''image.png'' nested_world = (Inr (), nested_world) \<and>
   \<not> endswith ''README.MD'' ''.md'' \<and>
   convert_file demo_tool ''.'' ''README.MD'' nested_world = (Inr (), nested_world) \<and>
   endswith ''notes.md'' ''.md'' \<and>
   (\<exists>rest. trace (snd (convert_file demo_tool ''.'' ''notes.md'' nested_world)) =
      trace nested_world @ announce ''.'' ''notes.md'' # rest)"
proof -
  have a: "\<not> endswith ''image.png'' ''.md''" by code_simp
  have b: "\<not> endswith ''README.MD'' ''.md''" by code_simp
  have c: "endswith ''notes.md'' ''.md''" by code_simp
  show ?thesis
    using candidate_filter [of "''image.png''" demo_tool "''.''" nested_world]
      candidate_filter [of "''README.MD''" demo_tool "''.''" nested_world]
      candidate_filter [of "''notes.md''" demo_tool "''.''" nested_world] a b c
    by blast
qed

text \<open>
  C3 (amended). For a candidate \<open>file\<close> of the directory \<open>root\<close>, the derived output path
  is the candidate's path with the substring from its last \<^verbatim>\<open>.\<close> to its end stripped
  and \<^verbatim>\<open>.ipynb\<close> appended, provided some character of the name before that
  \<^verbatim>\<open>.\<close> is not a dot; \<^verbatim>\<open>archive.tar.md\<close> gives \<^verbatim>\<open>archive.tar.ipynb\<close>. For a name
  that is only dots before \<^verbatim>\<open>md\<close>, such as \<^verbatim>\<open>.md\<close>, nothing is stripped and
  \<^verbatim>\<open>.ipynb\<close> is appended to the whole path. This is the path the body announces
  first of all when it runs for the candidate.
\<close>

theorem output_path_derivation:
  assumes "CHR ''/'' \<notin> set file" and "endswith file ''.md''"
  shows "ipynb_path_of root file =
           (if set (md_stem file) \<subseteq> {CHR ''.''} then join root file @ ''.ipynb''
            else spec_output_path (join root file)) \<and>
         (\<exists>rest. trace (snd (convert_file exec root file w)) =
            trace w @
            Print (''Converting: '' @ join root file @ '' -> '' @ ipynb_path_of root file) # rest)"
  using ipynb_path_of_candidate [OF assms] spec_output_path_candidate [OF assms]
    convert_file_announces [OF assms(2), of exec root w]
  by (simp add: announce_def)

theorem output_path_derivation_witness:
  "CHR ''/'' \<notin> set ''archive.tar.md'' \<and> endswith ''archive.tar.md'' ''.md'' \<and>
   \<not> set (md_stem ''archive.tar.md'') \<subseteq> {CHR ''.''} \<and>
   spec_output_path (join ''.'' ''archive.tar.md'') = ''./archive.tar.ipynb'' \<and>
   ipynb_path_of ''.'' ''archive.tar.md'' = ''./archive.tar.ipynb''"
proof -
  have a: "CHR ''/'' \<notin> set ''archive.tar.md''" by simp
  have b: "endswith ''archive.tar.md'' ''.md''" by (simp add: endswith_def)
  have c: "\<not> set (md_stem ''archive.tar.md'') \<subseteq> {CHR ''.''}" by (simp add: md_stem_def)
  have d: "spec_output_path (join ''.'' ''archive.tar.md'') = ''./archive.tar.ipynb''"
    by (simp add: spec_output_path_def join_def startswith_def endswith_def rfind_def)
  show ?thesis
    using output_path_derivation [OF a b, where root = "''.''" and exec = demo_tool and w = nested_world]
      a b c d by simp
qed

text \<open>
  C3 as the specification states it fails for the candidate \<^verbatim>\<open>.md\<close> of the directory
  \<^verbatim>\<open>.\<close>: stripping from the last \<^verbatim>\<open>.\<close> of the name gives \<^verbatim>\<open>./.ipynb\<close>, the script
  derives \<^verbatim>\<open>./.md.ipynb\<close>.
\<close>

theorem output_path_dotfile_counterexample:
  "endswith ''.md'' ''.md'' \<and> CHR ''/'' \<notin> set ''.md'' \<and>
   ipynb_path_of ''.'' ''.md'' = ''./.md.ipynb'' \<and>
   spec_output_path (join ''.'' ''.md'') = ''./.ipynb'' \<and>
   ipynb_path_of ''.'' ''.md'' \<noteq> spec_output_path (join ''.'' ''.md'')"
  by code_simp



text \<open>
  C5. When the body converts a candidate (an entry of a directory the walk has listed) and
  nothing raises, then the converter exists, and the body has printed the line that
  announces the source and the destination path, opened the destination, run the command
  \<^verbatim>\<open>notedown\<close> with the path of the candidate as its only argument, and closed the
  destination; the destination file holds exactly what the child wrote to its standard
  output, given the file system as it was after the destination was opened.
\<close>

theorem conversion_step:
  assumes md: "endswith file ''.md''"
    and ok: "entry_ok (filesystem w) (workdir w) (root, file)"
    and run: "convert_file exec root file w = (Inr (), w')"
  shows "\<exists>prog l.
     exec ''notedown'' = Some prog \<and>
     resolve (filesystem w) (workdir w) (ipynb_path_of root file) = Some l \<and>
     trace w' = trace w @
       [Print (''Converting: '' @ join root file @ '' -> '' @ ipynb_path_of root file),
        Open (ipynb_path_of root file),
        Run [''notedown'', join root file],
        Close (ipynb_path_of root file)] \<and>
     stat (filesystem w') l =
       Some (Reg True (out (prog [''notedown'', join root file] (workdir w)
                              (put l (File True []) (filesystem w)))))"
proof -
  from ok obtain d where r: "resolve (filesystem w) (workdir w) root = Some d"
    and d: "dir_at (filesystem w) d" and ns: "CHR ''/'' \<notin> set file" by (rule entry_okD)
  have rp: "resolve (filesystem w) (workdir w) (ipynb_path_of root file) = Some (d @ [dest_name file])"
    using r d ns md by (rule resolve_ipynb_path)
  from run have f: "fst (convert_file exec root file w) = Inr ()" by simp
  from convert_file_dest [OF md ok r f] obtain prog where
    p: "exec ''notedown'' = Some prog"
    and s: "stat (filesystem (snd (convert_file exec root file w))) (d @ [dest_name file]) =
             Some (Reg True (out (prog [''notedown'', join root file] (workdir w)
                (put (d @ [dest_name file]) (File True []) (filesystem w)))))"
    by blast
  from convert_file_events [OF md ok, of exec] f
  have "trace w' = trace w @ block (root, file)" using run by simp
  with p rp s run show ?thesis
    by (simp add: block_def announce_def)
qed

theorem conversion_step_witness:
  "endswith ''notes.md'' ''.md'' \<and>
   entry_ok (filesystem nested_world) (workdir nested_world) (''.'', ''notes.md'') \<and>
   fst (convert_file demo_tool ''.'' ''notes.md'' nested_world) = Inr () \<and>
   trace (snd (convert_file demo_tool ''.'' ''notes.md'' nested_world)) =
     [Print ''Converting: ./notes.md -> ./notes.ipynb'', Open ''./notes.ipynb'',
      Run [''notedown'', ''./notes.md''], Close ''./notes.ipynb''] \<and>
   stat (filesystem (snd (convert_file demo_tool ''.'' ''notes.md'' nested_world))) [''notes.ipynb''] =
     Some (Reg True ''nb:./notes.md'')"
proof -
  let ?r = "convert_file demo_tool ''.'' ''notes.md'' nested_world"
  have a: "endswith ''notes.md'' ''.md''" by code_simp
  have b: "entry_ok (filesystem nested_world) (workdir nested_world) (''.'', ''notes.md'')"
    by code_simp
  have c: "fst ?r = Inr ()" by code_simp
  then have d: "?r = (Inr (), snd ?r)" by (simp add: prod_eq_iff)
  have p: "ipynb_path_of ''.'' ''notes.md'' = ''./notes.ipynb''" by code_simp
  have j: "join ''.'' ''notes.md'' = ''./notes.md''" by code_simp
  have e: "resolve (filesystem nested_world) (workdir nested_world) ''./notes.ipynb'' =
      Some [''notes.ipynb'']" by code_simp
  have t: "trace nested_world = []" by code_simp
  have g: "demo_tool ''notedown'' = Some failing_converter"
    by (simp add: demo_tool_def)
  from conversion_step [OF a b d] obtain prog l where
    "demo_tool ''notedown'' = Some prog"
    "resolve (filesystem nested_world) (workdir nested_world) (ipynb_path_of ''.'' ''notes.md'') = Some l"
    "trace (snd ?r) = trace nested_world @
       [Print (''Converting: '' @ join ''.'' ''notes.md'' @ '' -> '' @ ipynb_path_of ''.'' ''notes.md''),
        Open (ipynb_path_of ''.'' ''notes.md''),
        Run [''notedown'', join ''.'' ''notes.md''],
        Close (ipynb_path_of ''.'' ''notes.md'')]"
    "stat (filesystem (snd ?r)) l =
       Some (Reg True (out (prog [''notedown'', join ''.'' ''notes.md''] (workdir nested_world)
                              (put l (File True []) (filesystem nested_world)))))"
    by blast
  then have "trace (snd ?r) =
     [Print ''Converting: ./notes.md -> ./notes.ipynb'', Open ''./notes.ipynb'',
      Run [''notedown'', ''./notes.md''], Close ''./notes.ipynb'']"
    and "stat (filesystem (snd ?r)) [''notes.ipynb''] = Some (Reg True ''nb:./notes.md'')"
    unfolding p j e t g by (auto simp: failing_converter_def)
  with a b c show ?thesis by simp
qed

text \<open>
  C6. \<open>convert_md_to_ipynb\<close> returns no value: its result is \<open>Inr ()\<close> or an exception.
  Let the converter exist. Then whether the run returns or raises, what it raises, the
  events it records and the tree it leaves, up to the contents of the files, are the same
  for any two converters: nothing the child does, neither its exit status nor what it
  writes to its standard error or its standard output, halts the traversal or changes its
  course. Two converters that write the same to standard output leave the very same
  world, whatever their exit status and standard error: the failure of a conversion shows
  in the content of the destination file only. The run stops early only at a candidate
  whose destination cannot be opened, which has then only been announced.
\<close>

theorem conversion_outcome_ignored:
  assumes wf: "wf_node (filesystem w)"
    and p: "exec ''notedown'' = Some prog" and p': "exec' ''notedown'' = Some prog'"
  shows
    "fst (convert_md_to_ipynb exec folder_path w) = fst (convert_md_to_ipynb exec' folder_path w) \<and>
     trace (snd (convert_md_to_ipynb exec folder_path w)) =
       trace (snd (convert_md_to_ipynb exec' folder_path w)) \<and>
     erase (filesystem (snd (convert_md_to_ipynb exec folder_path w))) =
       erase (filesystem (snd (convert_md_to_ipynb exec' folder_path w))) \<and>
     ((\<forall>args cwd t. out (prog args cwd t) = out (prog' args cwd t)) \<longrightarrow>
        convert_md_to_ipynb exec folder_path w = convert_md_to_ipynb exec' folder_path w) \<and>
     (case fst (convert_md_to_ipynb exec folder_path w) of
        Inr u \<Rightarrow>
          trace (snd (convert_md_to_ipynb exec folder_path w)) =
            trace w @ concat (map block
              (filter is_candidate (loop_files (os_walk (filesystem w) (workdir w) folder_path))))
      | Inl e \<Rightarrow>
          (\<exists>pre rf post.
             filter is_candidate (loop_files (os_walk (filesystem w) (workdir w) folder_path)) =
               pre @ rf # post \<and>
             trace (snd (convert_md_to_ipynb exec folder_path w)) =
               trace w @ concat (map block pre) @ [announce (fst rf) (snd rf)]))"
proof -
  let ?C = "filter is_candidate (loop_files (os_walk (filesystem w) (workdir w) folder_path))"
  have ok: "\<forall>rf \<in> set ?C. is_candidate rf \<and> entry_ok (filesystem w) (workdir w) rf"
    using candidates_entry_ok [OF wf, of "workdir w" folder_path] .
  then have ok': "\<forall>rf \<in> set ?C. entry_ok (filesystem w) (workdir w) rf" by simp
  from for_pairs_same_shape [OF same_shape_refl ok', where exec = exec and exec' = exec', OF p p']
  have 1: "fst (for_pairs exec ?C w) = fst (for_pairs exec' ?C w)"
    and 2: "same_shape (snd (for_pairs exec ?C w)) (snd (for_pairs exec' ?C w))" by simp_all
  have 3: "(\<forall>args cwd t. out (prog args cwd t) = out (prog' args cwd t)) \<longrightarrow>
        for_pairs exec ?C w = for_pairs exec' ?C w"
    using for_pairs_same_out [where exec = exec and exec' = exec', OF p p'] by blast
  note 4 = for_pairs_tool_events [OF ok, where exec = exec, OF p]
  show ?thesis
    unfolding convert_md_to_ipynb_pairs
    using 1 2 3 4 by (simp add: same_shape_def)
qed

theorem conversion_outcome_ignored_witness:
  "wf_node (filesystem nested_world) \<and>
   demo_tool ''notedown'' = Some failing_converter \<and>
   quiet_tool ''notedown'' = Some quiet_converter \<and>
   (\<forall>args cwd t. returncode (failing_converter args cwd t) = 1 \<and>
                 returncode (quiet_converter args cwd t) = 0 \<and>
                 out (failing_converter args cwd t) = out (quiet_converter args cwd t)) \<and>
   convert_md_to_ipynb demo_tool ''.'' nested_world = convert_md_to_ipynb quiet_tool ''.'' nested_world \<and>
   fst (convert_md_to_ipynb demo_tool ''.'' nested_world) = Inr () \<and>
   runs (trace (snd (convert_md_to_ipynb demo_tool ''.'' nested_world))) =
     [[''notedown'', ''./notes.md''], [''notedown'', ''./sub/dir/readme.md'']]"
proof -
  have a: "wf_node (filesystem nested_world)" by code_simp
  have b: "demo_tool ''notedown'' = Some failing_converter" by (simp add: demo_tool_def)
  have c: "quiet_tool ''notedown'' = Some quiet_converter" by (simp add: quiet_tool_def)
  have d: "\<forall>args cwd t. returncode (failing_converter args cwd t) = 1 \<and>
                 returncode (quiet_converter args cwd t) = 0 \<and>
                 out (failing_converter args cwd t) = out (quiet_converter args cwd t)"
    by (simp add: failing_converter_def quiet_converter_def)
  have e: "fst (convert_md_to_ipynb demo_tool ''.'' nested_world) = Inr ()" by code_simp
  have f: "runs (trace (snd (convert_md_to_ipynb demo_tool ''.'' nested_world))) =
     [[''notedown'', ''./notes.md''], [''notedown'', ''./sub/dir/readme.md'']]" by code_simp
  from conversion_outcome_ignored
      [where exec = demo_tool and exec' = quiet_tool and folder_path = "''.''", OF a b c] d
  have "convert_md_to_ipynb demo_tool ''.'' nested_world = convert_md_to_ipynb quiet_tool ''.'' nested_world"
    by blast
  with a b c d e f show ?thesis by blast
qed

text \<open>
  C7. When the candidates before some candidate have been converted and the destination of
  that candidate cannot be opened, whatever the reason, \<open>convert_md_to_ipynb\<close> raises the
  exception of \<^verbatim>\<open>open\<close>. The world it leaves is the one the earlier conversions left,
  with the line that announces the failing candidate as the last thing that happened:
  nothing is opened, run or written for this candidate or any candidate after it.
\<close>

theorem open_failure_halts:
  assumes wf: "wf_node (filesystem w)"
    and split: "filter is_candidate (loop_files (os_walk (filesystem w) (workdir w) folder_path)) =
                  pre @ (root, file) # post"
    and pre: "for_pairs exec pre w = (Inr (), w1)"
    and fail: "fst (py_open (ipynb_path_of root file)
                 (print (''Converting: '' @ join root file @ '' -> '' @ ipynb_path_of root file) w1)) =
               Inl e"
  shows "convert_md_to_ipynb exec folder_path w =
           (Inl e, w1\<lparr>trace := trace w @ concat (map block pre) @ [announce root file]\<rparr>)"
proof -
  let ?C = "filter is_candidate (loop_files (os_walk (filesystem w) (workdir w) folder_path))"
  let ?w1' = "print (''Converting: '' @ join root file @ '' -> '' @ ipynb_path_of root file) w1"
  have "(root, file) \<in> set ?C" unfolding split by simp
  then have md: "endswith file ''.md''" by (simp add: is_candidate_def)
  obtain w2 where o: "py_open (ipynb_path_of root file) ?w1' = (Inl e, w2)"
    using fail by (cases "py_open (ipynb_path_of root file) ?w1'") simp
  from py_open_fail [OF o] have w2: "w2 = ?w1'" .
  have cf: "convert_file exec root file w1 = (Inl e, ?w1')"
    using md o w2 by (simp add: convert_file_def ipynb_path_of_def Let_def)
  have "\<forall>rf \<in> set pre. is_candidate rf \<and> entry_ok (filesystem w) (workdir w) rf"
    using candidates_entry_ok [OF wf, of "workdir w" folder_path] unfolding split by simp
  from for_pairs_events [OF this, of exec] pre
  have t1: "trace w1 = trace w @ concat (map block pre)" by simp
  have "?w1' = w1\<lparr>trace := trace w @ concat (map block pre) @ [announce root file]\<rparr>"
    by (simp add: print_def announce_def t1)
  then show ?thesis
    unfolding convert_md_to_ipynb_pairs split for_pairs_append pre
    by (simp add: cf)
qed

theorem open_failure_halts_witness:
  "wf_node (filesystem blocked_world) \<and>
   filter is_candidate (loop_files (os_walk (filesystem blocked_world) (workdir blocked_world) ''.'')) =
     [(''.'', ''a.md'')] @ (''.'', ''b.md'') # [(''.'', ''c.md'')] \<and>
   fst (for_pairs demo_tool [(''.'', ''a.md'')] blocked_world) = Inr () \<and>
   fst (py_open (ipynb_path_of ''.'' ''b.md'')
          (print (''Converting: '' @ join ''.'' ''b.md'' @ '' -> '' @ ipynb_path_of ''.'' ''b.md'')
             (snd (for_pairs demo_tool [(''.'', ''a.md'')] blocked_world)))) =
     Inl (IsADirectoryError ''./b.ipynb'') \<and>
   convert_md_to_ipynb demo_tool ''.'' blocked_world =
     (Inl (IsADirectoryError ''./b.ipynb''),
      (snd (for_pairs demo_tool [(''.'', ''a.md'')] blocked_world))
        \<lparr>trace := trace blocked_world @ concat (map block [(''.'', ''a.md'')]) @ [announce ''.'' ''b.md'']\<rparr>) \<and>
   trace (snd (convert_md_to_ipynb demo_tool ''.'' blocked_world)) =
     [Print ''Converting: ./a.md -> ./a.ipynb'', Open ''./a.ipynb'', Run [''notedown'', ''./a.md''],
      Close ''./a.ipynb'', Print ''Converting: ./b.md -> ./b.ipynb''] \<and>
   wf_node (filesystem readonly_world) \<and>
   filter is_candidate (loop_files (os_walk (filesystem readonly_world) (workdir readonly_world) ''.'')) =
     [] @ (''.'', ''a.md'') # [(''.'', ''b.md'')] \<and>
   fst (py_open (ipynb_path_of ''.'' ''a.md'')
          (print (''Converting: '' @ join ''.'' ''a.md'' @ '' -> '' @ ipynb_path_of ''.'' ''a.md'')
             readonly_world)) =
     Inl (PermissionError ''./a.ipynb'') \<and>
   convert_md_to_ipynb demo_tool ''.'' readonly_world =
     (Inl (PermissionError ''./a.ipynb''),
      readonly_world\<lparr>trace := [Print ''Converting: ./a.md -> ./a.ipynb'']\<rparr>)"
proof -
  let ?w1 = "snd (for_pairs demo_tool [(''.'', ''a.md'')] blocked_world)"
  have a: "wf_node (filesystem blocked_world)" by code_simp
  have b: "filter is_candidate (loop_files (os_walk (filesystem blocked_world) (workdir blocked_world) ''.'')) =
     [(''.'', ''a.md'')] @ (''.'', ''b.md'') # [(''.'', ''c.md'')]" by code_simp
  have c: "fst (for_pairs demo_tool [(''.'', ''a.md'')] blocked_world) = Inr ()" by code_simp
  then have c': "for_pairs demo_tool [(''.'', ''a.md'')] blocked_world = (Inr (), ?w1)"
    by (simp add: prod_eq_iff)
  have d: "fst (py_open (ipynb_path_of ''.'' ''b.md'')
          (print (''Converting: '' @ join ''.'' ''b.md'' @ '' -> '' @ ipynb_path_of ''.'' ''b.md'') ?w1)) =
     Inl (IsADirectoryError ''./b.ipynb'')" by code_simp
  have e: "trace (snd (convert_md_to_ipynb demo_tool ''.'' blocked_world)) =
     [Print ''Converting: ./a.md -> ./a.ipynb'', Open ''./a.ipynb'', Run [''notedown'', ''./a.md''],
      Close ''./a.ipynb'', Print ''Converting: ./b.md -> ./b.ipynb'']" by code_simp
  have a2: "wf_node (filesystem readonly_world)" by code_simp
  have b2: "filter is_candidate (loop_files (os_walk (filesystem readonly_world) (workdir readonly_world) ''.'')) =
     [] @ (''.'', ''a.md'') # [(''.'', ''b.md'')]" by code_simp
  have c2: "for_pairs demo_tool [] readonly_world = (Inr (), readonly_world)" by simp
  have d2: "fst (py_open (ipynb_path_of ''.'' ''a.md'')
          (print (''Converting: '' @ join ''.'' ''a.md'' @ '' -> '' @ ipynb_path_of ''.'' ''a.md'')
             readonly_world)) =
     Inl (PermissionError ''./a.ipynb'')" by code_simp
  have t2: "trace readonly_world @ concat (map block []) @ [announce ''.'' ''a.md''] =
     [Print ''Converting: ./a.md -> ./a.ipynb'']" by code_simp
  from open_failure_halts [OF a2 b2 c2 d2]
  have f2: "convert_md_to_ipynb demo_tool ''.'' readonly_world =
     (Inl (PermissionError ''./a.ipynb''),
      readonly_world\<lparr>trace := [Print ''Converting: ./a.md -> ./a.ipynb'']\<rparr>)"
    unfolding t2 .
  from open_failure_halts [OF a b c' d] a b c d e a2 b2 d2 f2 show ?thesis by simp
qed





text \<open>
  C10. The file named exactly \<^verbatim>\<open>.md\<close> is a candidate, and its output path is its own
  path with \<^verbatim>\<open>.ipynb\<close> appended, in every directory: nothing is stripped. The body
  runs for it and announces the conversion to this path.
\<close>

theorem dotfile_md_destination:
  "endswith ''.md'' ''.md'' \<and>
   ipynb_path_of root ''.md'' = join root ''.md'' @ ''.ipynb'' \<and>
   ipynb_path_of ''.'' ''.md'' = ''./.md.ipynb'' \<and>
   (\<exists>rest. trace (snd (convert_file exec root ''.md'' w)) =
      trace w @
      Print (''Converting: '' @ join root ''.md'' @ '' -> '' @ join root ''.md'' @ ''.ipynb'') # rest)"
proof -
  have a: "CHR ''/'' \<notin> set ''.md''" by simp
  have b: "endswith ''.md'' ''.md''" by (simp add: endswith_def)
  have c: "set (md_stem ''.md'') \<subseteq> {CHR ''.''}" by (simp add: md_stem_def)
  have d: "ipynb_path_of root ''.md'' = join root ''.md'' @ ''.ipynb''" for root
    using ipynb_path_of_candidate [OF a b, of root] c by simp
  have e: "join ''.'' ''.md'' = ''./.md''"
    by (simp add: join_def startswith_def endswith_def)
  from convert_file_announces [OF b, of exec root w]
  have f: "\<exists>rest. trace (snd (convert_file exec root ''.md'' w)) =
      trace w @
      Print (''Converting: '' @ join root ''.md'' @ '' -> '' @ join root ''.md'' @ ''.ipynb'') # rest"
    by (simp add: announce_def d)
  show ?thesis using b d [of root] d [of "''.''"] e f by simp
qed

end
